theory Spec2Isabelle
  imports Main
begin

section \<open>Values exchanged with the validation service\<close>

text \<open>
  The value that \<^verbatim>\<open>res.json()\<close> hands to the schema: a deserialised JSON value.
  An object is the list of its own properties; reading a property takes the first
  binding of the key, and a key that is not bound reads as \<^verbatim>\<open>undefined\<close>
  (\<open>None\<close>). Numbers are kept as integers: the schema never looks inside one.
\<close>

datatype json =
    JNull
  | JBool bool
  | JNum int
  | JStr string
  | JArr "json list"
  | JObj "(string \<times> json) list"

fun json_get :: "json \<Rightarrow> string \<Rightarrow> json option" where
  "json_get (JObj kvs) k = map_of kvs k"
| "json_get _ k = None"

text \<open>\<^verbatim>\<open>z.enum(["modify", "passthrough", "block", "rephrase"])\<close>\<close>

datatype action = Modify | Passthrough | Block | Rephrase

text \<open>
  \<^verbatim>\<open>GuardrailsResponse\<close>: the two declared fields, and the other own properties of
  the parsed object. \<^verbatim>\<open>null\<close> in \<^verbatim>\<open>revised_response\<close> is \<open>None\<close>.
\<close>

record guardrails_response =
  action :: action
  revised_response :: "string option"
  other_fields :: "(string \<times> json) list"

text \<open>
  What the code can throw. \<open>GuardrailsError\<close> is the \<^verbatim>\<open>new Error(...)\<close> of
  \<^verbatim>\<open>validateWithGuardrails\<close> with its message; \<open>ZodError\<close> is what
  \<^verbatim>\<open>GuardrailsResponseSchema.parse\<close> throws, with the paths of its issues (the empty
  path is the reply itself); \<open>SyntaxError\<close> is \<^verbatim>\<open>res.json()\<close> on a body that is
  not JSON. None of the three has a \<^verbatim>\<open>code\<close> property. A value thrown by a
  collaborator (the wrapped model, \<^verbatim>\<open>fetch\<close>, a conversion routine) is either falsy
  or carries its \<^verbatim>\<open>code\<close> property when that is a string, and a label.
\<close>

datatype thrown =
    GuardrailsError string
  | ZodError "string list list"
  | SyntaxError
  | ThrownFalsy
  | ThrownValue "string option" string

text \<open>\<^verbatim>\<open>e && e.code === "content_filter"\<close>\<close>

fun is_content_filter :: "thrown \<Rightarrow> bool" where
  "is_content_filter (ThrownValue code label) = (code = Some ''content_filter'')"
| "is_content_filter _ = False"

subsection \<open>The response schema\<close>

fun parse_action :: "json option \<Rightarrow> action option" where
  "parse_action (Some (JStr s)) =
     (if s = ''modify'' then Some Modify
      else if s = ''passthrough'' then Some Passthrough
      else if s = ''block'' then Some Block
      else if s = ''rephrase'' then Some Rephrase
      else None)"
| "parse_action _ = None"

text \<open>
  \<^verbatim>\<open>z.string().nullable()\<close>: a string or \<^verbatim>\<open>null\<close>. A key that is missing reads as
  \<^verbatim>\<open>undefined\<close>, which \<^verbatim>\<open>nullable\<close> does not accept.
\<close>

fun parse_nullable_string :: "json option \<Rightarrow> string option option" where
  "parse_nullable_string (Some JNull) = Some None"
| "parse_nullable_string (Some (JStr s)) = Some (Some s)"
| "parse_nullable_string _ = None"

definition declared_keys :: "string list" where
  "declared_keys = [''action'', ''revised_response'']"

text \<open>
  \<^verbatim>\<open>z.looseObject\<close> validates the declared keys and lets every other key of the
  reply through without validating it. The parsed object is a new one; it has the
  other keys of the reply as own properties, but for \<^verbatim>\<open>__proto__\<close>: a reply can carry
  that key as an own property, the parsed object never does.
\<close>

fun GuardrailsResponseSchema_parse :: "json \<Rightarrow> thrown + guardrails_response" where
  "GuardrailsResponseSchema_parse (JObj kvs) =
     (case (parse_action (map_of kvs ''action''),
            parse_nullable_string (map_of kvs ''revised_response'')) of
        (Some a, Some r) \<Rightarrow>
          Inr \<lparr>action = a, revised_response = r,
               other_fields =
                 filter (\<lambda>(k, v). k \<notin> set declared_keys \<and> k \<noteq> ''__proto__'') kvs\<rparr>
      | (None, Some r) \<Rightarrow> Inl (ZodError [[''action'']])
      | (Some a, None) \<Rightarrow> Inl (ZodError [[''revised_response'']])
      | (None, None) \<Rightarrow> Inl (ZodError [[''action''], [''revised_response'']]))"
| "GuardrailsResponseSchema_parse _ = Inl (ZodError [[]])"

section \<open>Messages, requests and replies\<close>

text \<open>
  A prompt message as \<^verbatim>\<open>toChatMessages()\<close> returns it, and the role-tagged pair that
  \<^verbatim>\<open>_convertMessagesToOpenAIParams\<close> makes of it for the payload.
\<close>

datatype base_message = BaseMessage string string

type_synonym openai_param = "string \<times> string"

text \<open>
  \<^verbatim>\<open>AIMessage\<close>, and \<^verbatim>\<open>AIMessageChunk\<close>, its subclass: the text content, and
  \<open>tool_calls\<close> standing for the fields the wrapper never reads. Content is a string
  here, as the code's \<^verbatim>\<open>response.content as string\<close> takes it to be.
\<close>

record ai_message =
  content :: string
  tool_calls :: "string list"

text \<open>\<^verbatim>\<open>new AIMessage(text)\<close> and \<^verbatim>\<open>new AIMessageChunk({ content: text })\<close>\<close>

definition AIMessage :: "string \<Rightarrow> ai_message" where
  "AIMessage text = \<lparr>content = text, tool_calls = []\<rparr>"

definition AIMessageChunk :: "string \<Rightarrow> ai_message" where
  "AIMessageChunk text = \<lparr>content = text, tool_calls = []\<rparr>"

datatype validation_target = Prompt | Response

record payload =
  messages :: "openai_param list"
  response :: string
  validation_target :: validation_target

text \<open>The \<^verbatim>\<open>POST\<close> request: its URL, the \<^verbatim>\<open>X-APORIA-API-KEY\<close> header and its body.\<close>

record http_request =
  url :: string
  api_key_header :: string
  body :: payload

text \<open>
  What \<^verbatim>\<open>fetch\<close> resolves to: \<^verbatim>\<open>res.ok\<close>, \<^verbatim>\<open>res.status\<close>,
  \<^verbatim>\<open>res.statusText\<close>, and what \<^verbatim>\<open>res.json()\<close> gives (\<open>None\<close> when the body is not
  JSON). \<^verbatim>\<open>res.ok\<close> is the flag the code reads to tell a success status from any
  other; it is a field of its own here.
\<close>

record http_response =
  ok :: bool
  status :: nat
  statusText :: string
  json_body :: "json option"

section \<open>The outside world\<close>

text \<open>
  Every call that leaves the wrapper is recorded, in order: a \<^verbatim>\<open>fetch\<close> with what it
  answered, a call of the wrapped model's \<^verbatim>\<open>invoke\<close> or \<^verbatim>\<open>stream\<close> with its
  arguments, and on the underlying stream each \<^verbatim>\<open>next()\<close> (a fragment, the end, or a
  throw) and the \<^verbatim>\<open>return()\<close> that leaving the \<^verbatim>\<open>for await\<close> loop early calls.
  \<open>'m\<close> is a model instance, \<open>'i\<close> a model input, \<open>'o\<close> any other JavaScript value
  (call options, tools, a configuration).
\<close>

datatype ('m, 'i, 'o) event =
    Fetch http_request "thrown + http_response"
  | CallInvoke 'm 'i "'o option"
  | CallStream 'm 'i "'o option"
  | Next "ai_message option"
  | NextThrew thrown
  | Return

text \<open>
  The collaborators. What the service and the model answer may depend on everything that
  happened before (the events so far), so two calls with the same arguments need not get
  the same answer. An underlying stream is the fragments it will produce and how it ends
  (\<open>None\<close>: normally; \<open>Some e\<close>: by throwing \<open>e\<close>). The conversion of the input to
  prompt messages may throw; the conversion of the messages for the payload is taken to
  be total.
\<close>

record ('m, 'i, 'o) world =
  convertInputToPromptValue :: "'i \<Rightarrow> thrown + base_message list"
  convertMessagesToOpenAIParams :: "base_message list \<Rightarrow> openai_param list"
  fetch :: "('m, 'i, 'o) event list \<Rightarrow> http_request \<Rightarrow> thrown + http_response"
  model_invoke :: "('m, 'i, 'o) event list \<Rightarrow> 'm \<Rightarrow> 'i \<Rightarrow> 'o option \<Rightarrow> thrown + ai_message"
  model_stream :: "('m, 'i, 'o) event list \<Rightarrow> 'm \<Rightarrow> 'i \<Rightarrow> 'o option
                     \<Rightarrow> thrown + (ai_message list \<times> thrown option)"
  model_bindTools :: "'m \<Rightarrow> 'o list \<Rightarrow> thrown + 'm"
  model_withConfig :: "'m \<Rightarrow> 'o \<Rightarrow> thrown + 'm"

section \<open>JavaScript operators the code relies on\<close>

text \<open>
  \<^verbatim>\<open>a || b\<close> for \<open>a\<close> a string or \<^verbatim>\<open>undefined\<close>: \<open>b\<close> when \<open>a\<close> is
  \<^verbatim>\<open>undefined\<close> or the empty string.
\<close>

fun js_or :: "string option \<Rightarrow> string \<Rightarrow> string" where
  "js_or None b = b"
| "js_or (Some a) b = (if a = [] then b else a)"

text \<open>
  \<^verbatim>\<open>a % b\<close> on integers: the remainder has the sign of \<open>a\<close>, and \<^verbatim>\<open>a % 0\<close> is
  \<^verbatim>\<open>NaN\<close> (\<open>None\<close>), which is not \<^verbatim>\<open>=== 0\<close>.
\<close>

definition js_rem :: "int \<Rightarrow> int \<Rightarrow> int option" where
  "js_rem a b = (if b = 0 then None else Some (sgn a * (\<bar>a\<bar> mod \<bar>b\<bar>)))"

text \<open>\<^verbatim>\<open>baseUrl.replace(/\/+$/, "")\<close>\<close>

definition strip_trailing_slashes :: "string \<Rightarrow> string" where
  "strip_trailing_slashes s = rev (dropWhile (\<lambda>c. c = CHR ''/'') (rev s))"

text \<open>A non-negative integer in a template literal: its decimal digits.\<close>

fun number_to_string :: "nat \<Rightarrow> string" where
  "number_to_string n =
     (if n < 10 then [''0123456789'' ! n]
      else number_to_string (n div 10) @ [''0123456789'' ! (n mod 10)])"

section \<open>The validation client\<close>

definition DEFAULT_CHUNK_BATCH_SIZE :: int where
  "DEFAULT_CHUNK_BATCH_SIZE = 200"

definition DEFAULT_BASE_URL :: string where
  "DEFAULT_BASE_URL = ''https://gr-prd.aporia.com''"

definition PROMPT_OVERRIDE :: string where
  "PROMPT_OVERRIDE = ''[Prompt intercepted: custom response]''"

definition RESPONSE_OVERRIDE :: string where
  "RESPONSE_OVERRIDE = ''[Response intercepted: custom override]''"

definition APOLOGY :: string where
  "APOLOGY = ''I'm sorry, but I can't assist with that request.''"

text \<open>A parameter with a default value: \<^verbatim>\<open>undefined\<close> (\<open>None\<close>) takes the default.\<close>

fun or_default :: "'a option \<Rightarrow> 'a \<Rightarrow> 'a" where
  "or_default None d = d"
| "or_default (Some v) d = v"

text \<open>
  \<^verbatim>\<open>validateWithGuardrails\<close>, in two steps: the request it sends, and what it makes
  of the answer. It calls \<^verbatim>\<open>fetch\<close> once; the result comes with the events of the
  call.
\<close>

definition validation_request ::
  "('m, 'i, 'o) world \<Rightarrow> string \<Rightarrow> string \<Rightarrow> base_message list \<Rightarrow> string
     \<Rightarrow> validation_target \<Rightarrow> string option \<Rightarrow> http_request" where
  "validation_request w projectId apiKey msgs resp target baseUrl =
     (let trimmedBase = strip_trailing_slashes (or_default baseUrl DEFAULT_BASE_URL);
          apiUrl = trimmedBase @ ''/'' @ projectId @ ''/validate''
      in \<lparr>url = apiUrl, api_key_header = apiKey,
          body = \<lparr>messages = convertMessagesToOpenAIParams w msgs, response = resp,
                   validation_target = target\<rparr>\<rparr>)"

definition read_reply :: "thrown + http_response \<Rightarrow> thrown + guardrails_response" where
  "read_reply answer =
     (case answer of
        Inl e \<Rightarrow> Inl e
      | Inr res \<Rightarrow>
          if \<not> ok res then
            Inl (GuardrailsError (''Guardrails validation failed: ''
                   @ number_to_string (status res) @ '' '' @ statusText res))
          else (case json_body res of
                  None \<Rightarrow> Inl SyntaxError
                | Some rawResponse \<Rightarrow> GuardrailsResponseSchema_parse rawResponse))"

definition validateWithGuardrails ::
  "('m, 'i, 'o) world \<Rightarrow> ('m, 'i, 'o) event list \<Rightarrow> string \<Rightarrow> string \<Rightarrow> base_message list
     \<Rightarrow> string \<Rightarrow> validation_target \<Rightarrow> string option
     \<Rightarrow> (thrown + guardrails_response) \<times> ('m, 'i, 'o) event list" where
  "validateWithGuardrails w h projectId apiKey msgs resp target baseUrl =
     (let req = validation_request w projectId apiKey msgs resp target baseUrl;
          answer = fetch w h req
      in (read_reply answer, [Fetch req answer]))"

text \<open>
  \<^verbatim>\<open>createPromptCondition\<close> and \<^verbatim>\<open>createResponseCondition\<close>.
  \<^verbatim>\<open>revised_response ?? undefined\<close> turns \<^verbatim>\<open>null\<close> into \<^verbatim>\<open>undefined\<close>: both are
  \<open>None\<close>.
\<close>

record check_result =
  shouldBlock :: bool
  overrideResponse :: "string option"

definition decide :: "guardrails_response \<Rightarrow> check_result" where
  "decide r =
     \<lparr>shouldBlock = (action r = Block \<or> action r = Modify \<or> action r = Rephrase),
      overrideResponse = revised_response r\<rparr>"

definition createPromptCondition ::
  "('m, 'i, 'o) world \<Rightarrow> string \<Rightarrow> string \<Rightarrow> string option \<Rightarrow> ('m, 'i, 'o) event list
     \<Rightarrow> base_message list \<Rightarrow> (thrown + check_result) \<times> ('m, 'i, 'o) event list" where
  "createPromptCondition w projectId apiKey baseUrl h msgs =
     (case validateWithGuardrails w h projectId apiKey msgs '''' Prompt
             (Some (or_default baseUrl DEFAULT_BASE_URL)) of
        (Inl e, es) \<Rightarrow> (Inl e, es)
      | (Inr r, es) \<Rightarrow> (Inr (decide r), es))"

definition createResponseCondition ::
  "('m, 'i, 'o) world \<Rightarrow> string \<Rightarrow> string \<Rightarrow> string option \<Rightarrow> ('m, 'i, 'o) event list
     \<Rightarrow> ai_message \<Rightarrow> base_message list
     \<Rightarrow> (thrown + check_result) \<times> ('m, 'i, 'o) event list" where
  "createResponseCondition w projectId apiKey baseUrl h resp msgs =
     (case validateWithGuardrails w h projectId apiKey msgs (content resp) Response
             (Some (or_default baseUrl DEFAULT_BASE_URL)) of
        (Inl e, es) \<Rightarrow> (Inl e, es)
      | (Inr r, es) \<Rightarrow> (Inr (decide r), es))"

section \<open>The interception layer\<close>

text \<open>\<^verbatim>\<open>AporiaGuardrailsConfig\<close>; an optional field that is left out is \<open>None\<close>.\<close>

record config =
  projectId :: string
  apiKey :: string
  chunkBatchSize :: "int option"
  baseUrl :: "string option"

text \<open>
  The proxy that \<^verbatim>\<open>withGuardrails\<close> returns is its target and the four constants its
  handler closes over: \<^verbatim>\<open>projectId\<close>, \<^verbatim>\<open>apiKey\<close>, and \<^verbatim>\<open>chunkBatchSize\<close> and
  \<^verbatim>\<open>baseUrl\<close> after their defaults. The batch size is an integer here (zero and
  negative ones included); the code does not check it.
\<close>

record 'm guarded =
  target :: 'm
  bound_projectId :: string
  bound_apiKey :: string
  bound_chunkBatchSize :: int
  bound_baseUrl :: string

definition withGuardrails :: "'m \<Rightarrow> config \<Rightarrow> 'm guarded" where
  "withGuardrails model cfg =
     \<lparr>target = model,
      bound_projectId = projectId cfg,
      bound_apiKey = apiKey cfg,
      bound_chunkBatchSize = or_default (chunkBatchSize cfg) DEFAULT_CHUNK_BATCH_SIZE,
      bound_baseUrl = or_default (baseUrl cfg) DEFAULT_BASE_URL\<rparr>"

definition PROMPT_CONDITION ::
  "('m, 'i, 'o) world \<Rightarrow> 'm guarded \<Rightarrow> ('m, 'i, 'o) event list \<Rightarrow> base_message list
     \<Rightarrow> (thrown + check_result) \<times> ('m, 'i, 'o) event list" where
  "PROMPT_CONDITION w g =
     createPromptCondition w (bound_projectId g) (bound_apiKey g) (Some (bound_baseUrl g))"

definition RESPONSE_CONDITION ::
  "('m, 'i, 'o) world \<Rightarrow> 'm guarded \<Rightarrow> ('m, 'i, 'o) event list \<Rightarrow> ai_message
     \<Rightarrow> base_message list \<Rightarrow> (thrown + check_result) \<times> ('m, 'i, 'o) event list" where
  "RESPONSE_CONDITION w g =
     createResponseCondition w (bound_projectId g) (bound_apiKey g) (Some (bound_baseUrl g))"

definition extractMessages :: "('m, 'i, 'o) world \<Rightarrow> 'i \<Rightarrow> thrown + base_message list" where
  "extractMessages w input = convertInputToPromptValue w input"

subsection \<open>The single-turn call\<close>

text \<open>
  The \<^verbatim>\<open>catch\<close> clause of \<^verbatim>\<open>invoke\<close>. The \<^verbatim>\<open>try\<close> block holds the call of the
  model and the response check, so what either throws arrives here.
\<close>

definition invoke_catch ::
  "thrown \<Rightarrow> ('m, 'i, 'o) event list \<Rightarrow> (thrown + ai_message) \<times> ('m, 'i, 'o) event list" where
  "invoke_catch e es =
     (if is_content_filter e then (Inr (AIMessage APOLOGY), es) else (Inl e, es))"

definition guarded_invoke ::
  "('m, 'i, 'o) world \<Rightarrow> ('m, 'i, 'o) event list \<Rightarrow> 'm guarded \<Rightarrow> 'i \<Rightarrow> 'o option
     \<Rightarrow> (thrown + ai_message) \<times> ('m, 'i, 'o) event list" where
  "guarded_invoke w h g input options =
     (case extractMessages w input of
        Inl e \<Rightarrow> (Inl e, [])
      | Inr promptMsgs \<Rightarrow>
          (case PROMPT_CONDITION w g h promptMsgs of
             (Inl e, es1) \<Rightarrow> (Inl e, es1)
           | (Inr promptCheck, es1) \<Rightarrow>
               if shouldBlock promptCheck then
                 (Inr (AIMessage (js_or (overrideResponse promptCheck) PROMPT_OVERRIDE)), es1)
               else
                 (let es2 = es1 @ [CallInvoke (target g) input options] in
                  case model_invoke w (h @ es1) (target g) input options of
                    Inl e \<Rightarrow> invoke_catch e es2
                  | Inr result \<Rightarrow>
                      (case RESPONSE_CONDITION w g (h @ es2) result promptMsgs of
                         (Inl e, es3) \<Rightarrow> invoke_catch e (es2 @ es3)
                       | (Inr responseCheck, es3) \<Rightarrow>
                           if shouldBlock responseCheck then
                             (Inr (AIMessage
                                (js_or (overrideResponse responseCheck) RESPONSE_OVERRIDE)),
                              es2 @ es3)
                           else (Inr result, es2 @ es3)))))"

subsection \<open>The streaming call\<close>

text \<open>
  The \<^verbatim>\<open>for await\<close> loop over the underlying stream, run until the generator is
  drained. Its state is \<^verbatim>\<open>chunkCount\<close>, \<^verbatim>\<open>lastChunk\<close> and
  \<^verbatim>\<open>accumulatedContent\<close>. It gives the fragments it yields, its events, and either
  what it threw or the state in which control reaches the code after the loop (the
  stream was exhausted, or the loop was left by \<^verbatim>\<open>break\<close>).
\<close>

type_synonym loop_state = "nat \<times> ai_message option \<times> string"

fun stream_loop ::
  "('m, 'i, 'o) world \<Rightarrow> 'm guarded \<Rightarrow> base_message list \<Rightarrow> ('m, 'i, 'o) event list
     \<Rightarrow> ai_message list \<Rightarrow> thrown option \<Rightarrow> nat \<Rightarrow> ai_message option \<Rightarrow> string
     \<Rightarrow> ai_message list \<times> ('m, 'i, 'o) event list \<times> (thrown + loop_state)" where
  "stream_loop w g promptMsgs h [] ending chunkCount lastChunk accumulatedContent =
     (case ending of
        None \<Rightarrow> ([], [Next None], Inr (chunkCount, lastChunk, accumulatedContent))
      | Some e \<Rightarrow> ([], [NextThrew e], Inl e))"
| "stream_loop w g promptMsgs h (chunk # rest) ending chunkCount lastChunk accumulatedContent =
     (let chunkCount' = chunkCount + 1;
          accumulated' = accumulatedContent @ js_or (Some (content chunk)) ''''
      in
        if js_rem (int chunkCount') (bound_chunkBatchSize g) = Some 0 then
          (case RESPONSE_CONDITION w g (h @ [Next (Some chunk)]) (AIMessage accumulated')
                  promptMsgs of
             (Inl e, es) \<Rightarrow> ([], Next (Some chunk) # es @ [Return], Inl e)
           | (Inr responseCheck, es) \<Rightarrow>
               if shouldBlock responseCheck then
                 ([AIMessageChunk (js_or (overrideResponse responseCheck) RESPONSE_OVERRIDE)],
                  Next (Some chunk) # es @ [Return],
                  Inr (chunkCount', Some chunk, accumulated'))
               else
                 (case stream_loop w g promptMsgs (h @ Next (Some chunk) # es) rest ending
                         chunkCount' (Some chunk) accumulated' of
                    (ys, es', r) \<Rightarrow> (chunk # ys, Next (Some chunk) # es @ es', r)))
        else
          (case stream_loop w g promptMsgs (h @ [Next (Some chunk)]) rest ending
                  chunkCount' (Some chunk) accumulated' of
             (ys, es', r) \<Rightarrow> (chunk # ys, Next (Some chunk) # es', r)))"

text \<open>The check after the loop.\<close>

definition tail_check ::
  "('m, 'i, 'o) world \<Rightarrow> 'm guarded \<Rightarrow> base_message list \<Rightarrow> ('m, 'i, 'o) event list
     \<Rightarrow> loop_state \<Rightarrow> ai_message list \<times> ('m, 'i, 'o) event list \<times> thrown option" where
  "tail_check w g promptMsgs h st =
     (case st of (chunkCount, lastChunk, accumulatedContent) \<Rightarrow>
        if lastChunk \<noteq> None \<and> js_rem (int chunkCount) (bound_chunkBatchSize g) \<noteq> Some 0 then
          (case RESPONSE_CONDITION w g h (AIMessage accumulatedContent) promptMsgs of
             (Inl e, es) \<Rightarrow> ([], es, Some e)
           | (Inr responseCheck, es) \<Rightarrow>
               if shouldBlock responseCheck then
                 ([AIMessageChunk (js_or (overrideResponse responseCheck) RESPONSE_OVERRIDE)],
                  es, None)
               else ([], es, None))
        else ([], [], None))"

text \<open>
  The loop and the check after it, on an opened stream: the fragments yielded, the
  events, and how the sequence ends (\<open>None\<close>: it ends; \<open>Some e\<close>: it throws \<open>e\<close>).
\<close>

definition stream_body ::
  "('m, 'i, 'o) world \<Rightarrow> 'm guarded \<Rightarrow> base_message list \<Rightarrow> ('m, 'i, 'o) event list
     \<Rightarrow> ai_message list \<Rightarrow> thrown option
     \<Rightarrow> ai_message list \<times> ('m, 'i, 'o) event list \<times> thrown option" where
  "stream_body w g promptMsgs h chunks ending =
     (case stream_loop w g promptMsgs h chunks ending 0 None [] of
        (ys, es, Inl e) \<Rightarrow> (ys, es, Some e)
      | (ys, es, Inr st) \<Rightarrow>
          (case tail_check w g promptMsgs (h @ es) st of
             (zs, es', err) \<Rightarrow> (ys @ zs, es @ es', err)))"

definition guarded_stream ::
  "('m, 'i, 'o) world \<Rightarrow> ('m, 'i, 'o) event list \<Rightarrow> 'm guarded \<Rightarrow> 'i \<Rightarrow> 'o option
     \<Rightarrow> ai_message list \<times> ('m, 'i, 'o) event list \<times> thrown option" where
  "guarded_stream w h g input options =
     (case extractMessages w input of
        Inl e \<Rightarrow> ([], [], Some e)
      | Inr promptMsgs \<Rightarrow>
          (case PROMPT_CONDITION w g h promptMsgs of
             (Inl e, es1) \<Rightarrow> ([], es1, Some e)
           | (Inr promptCheck, es1) \<Rightarrow>
               if shouldBlock promptCheck then
                 ([AIMessageChunk (js_or (overrideResponse promptCheck) PROMPT_OVERRIDE)],
                  es1, None)
               else
                 (let es2 = es1 @ [CallStream (target g) input options] in
                  case model_stream w (h @ es1) (target g) input options of
                    Inl e \<Rightarrow> ([], es2, Some e)
                  | Inr (chunks, ending) \<Rightarrow>
                      (case stream_body w g promptMsgs (h @ es2) chunks ending of
                         (ys, es3, err) \<Rightarrow> (ys, es2 @ es3, err)))))"

subsection \<open>Tool binding and reconfiguration\<close>

text \<open>The configuration object that the two handlers pass to \<^verbatim>\<open>withGuardrails\<close>.\<close>

definition closure_config :: "'m guarded \<Rightarrow> config" where
  "closure_config g =
     \<lparr>projectId = bound_projectId g, apiKey = bound_apiKey g,
      chunkBatchSize = Some (bound_chunkBatchSize g), baseUrl = Some (bound_baseUrl g)\<rparr>"

definition guarded_bindTools ::
  "('m, 'i, 'o) world \<Rightarrow> 'm guarded \<Rightarrow> 'o list \<Rightarrow> thrown + 'm guarded" where
  "guarded_bindTools w g args =
     (case model_bindTools w (target g) args of
        Inl e \<Rightarrow> Inl e
      | Inr newModel \<Rightarrow> Inr (withGuardrails newModel (closure_config g)))"

definition guarded_withConfig ::
  "('m, 'i, 'o) world \<Rightarrow> 'm guarded \<Rightarrow> 'o \<Rightarrow> thrown + 'm guarded" where
  "guarded_withConfig w g cfg =
     (case model_withConfig w (target g) cfg of
        Inl e \<Rightarrow> Inl e
      | Inr newModel \<Rightarrow> Inr (withGuardrails newModel (closure_config g)))"

section \<open>Reading a trace\<close>

text \<open>The fragments received from the underlying stream, in order, and their text.\<close>

fun fragments_of :: "('m, 'i, 'o) event list \<Rightarrow> ai_message list" where
  "fragments_of [] = []"
| "fragments_of (Next (Some c) # es) = c # fragments_of es"
| "fragments_of (e # es) = fragments_of es"

definition text_of :: "ai_message list \<Rightarrow> string" where
  "text_of cs = concat (map content cs)"

fun is_response_check :: "('m, 'i, 'o) event \<Rightarrow> bool" where
  "is_response_check (Fetch req a) = (validation_target (body req) = Response)"
| "is_response_check e = False"

fun is_model_call :: "('m, 'i, 'o) event \<Rightarrow> bool" where
  "is_model_call (CallInvoke m i opt) = True"
| "is_model_call (CallStream m i opt) = True"
| "is_model_call e = False"

text \<open>
  For each response check of a trace, the number of fragments received before it; \<open>n\<close>
  fragments were received before the trace starts.
\<close>

fun check_positions :: "nat \<Rightarrow> ('m, 'i, 'o) event list \<Rightarrow> nat list" where
  "check_positions n [] = []"
| "check_positions n (Next (Some c) # es) = check_positions (Suc n) es"
| "check_positions n (Fetch req a # es) =
     (if validation_target (body req) = Response then n # check_positions n es
      else check_positions n es)"
| "check_positions n (e # es) = check_positions n es"

text \<open>The requests of a guarded model's prompt check and of its response checks.\<close>

definition prompt_request ::
  "('m, 'i, 'o) world \<Rightarrow> 'm guarded \<Rightarrow> base_message list \<Rightarrow> http_request" where
  "prompt_request w g msgs =
     validation_request w (bound_projectId g) (bound_apiKey g) msgs '''' Prompt
       (Some (bound_baseUrl g))"

definition response_request ::
  "('m, 'i, 'o) world \<Rightarrow> 'm guarded \<Rightarrow> base_message list \<Rightarrow> string \<Rightarrow> http_request" where
  "response_request w g msgs text =
     validation_request w (bound_projectId g) (bound_apiKey g) msgs text Response
       (Some (bound_baseUrl g))"

text \<open>
  The text that stands in for blocked content: the revision when it is a string that is
  not empty, the default otherwise.
\<close>

definition substitute :: "guardrails_response \<Rightarrow> string \<Rightarrow> string" where
  "substitute r dflt =
     (case revised_response r of
        None \<Rightarrow> dflt
      | Some t \<Rightarrow> if t = [] then dflt else t)"

text \<open>The two conditions of the schema, stated on the reply's fields.\<close>

fun action_name :: "action \<Rightarrow> string" where
  "action_name Modify = ''modify''"
| "action_name Passthrough = ''passthrough''"
| "action_name Block = ''block''"
| "action_name Rephrase = ''rephrase''"

definition recognised_action :: "json option \<Rightarrow> bool" where
  "recognised_action v =
     (v = Some (JStr ''modify'') \<or> v = Some (JStr ''passthrough'')
      \<or> v = Some (JStr ''block'') \<or> v = Some (JStr ''rephrase''))"

definition string_or_null :: "json option \<Rightarrow> bool" where
  "string_or_null v =
     (case v of Some JNull \<Rightarrow> True | Some (JStr s) \<Rightarrow> True | _ \<Rightarrow> False)"

text \<open>
  A caller that applies a sequence of tool-binding and reconfiguration operations, to a
  model and to a guarded model.
\<close>

datatype 'o reconfiguration = BindTools "'o list" | WithConfig 'o

fun derive_model :: "('m, 'i, 'o) world \<Rightarrow> 'm \<Rightarrow> 'o reconfiguration list \<Rightarrow> thrown + 'm" where
  "derive_model w m [] = Inr m"
| "derive_model w m (BindTools args # ops) =
     (case model_bindTools w m args of Inl e \<Rightarrow> Inl e | Inr m' \<Rightarrow> derive_model w m' ops)"
| "derive_model w m (WithConfig cfg # ops) =
     (case model_withConfig w m cfg of Inl e \<Rightarrow> Inl e | Inr m' \<Rightarrow> derive_model w m' ops)"

fun derive_guarded ::
  "('m, 'i, 'o) world \<Rightarrow> 'm guarded \<Rightarrow> 'o reconfiguration list \<Rightarrow> thrown + 'm guarded" where
  "derive_guarded w g [] = Inr g"
| "derive_guarded w g (BindTools args # ops) =
     (case guarded_bindTools w g args of Inl e \<Rightarrow> Inl e | Inr g' \<Rightarrow> derive_guarded w g' ops)"
| "derive_guarded w g (WithConfig cfg # ops) =
     (case guarded_withConfig w g cfg of Inl e \<Rightarrow> Inl e | Inr g' \<Rightarrow> derive_guarded w g' ops)"

section \<open>A concrete world\<close>

text \<open>
  For the instances below: a service that answers every request from its payload alone,
  and a model with one fixed answer and one fixed stream, whose instances are numbered.
\<close>

definition stub_reply :: "string \<Rightarrow> string option \<Rightarrow> http_response" where
  "stub_reply act revision =
     \<lparr>ok = True, status = 200, statusText = ''OK'',
      json_body = Some (JObj [(''action'', JStr act),
        (''revised_response'', case revision of None \<Rightarrow> JNull | Some s \<Rightarrow> JStr s)])\<rparr>"

definition stub_world ::
  "(payload \<Rightarrow> http_response) \<Rightarrow> thrown + ai_message \<Rightarrow> ai_message list
     \<Rightarrow> (nat, string, unit) world" where
  "stub_world service answer chunks =
     \<lparr>convertInputToPromptValue = (\<lambda>s. Inr [BaseMessage ''user'' s]),
      convertMessagesToOpenAIParams = map (\<lambda>m. case m of BaseMessage r c \<Rightarrow> (r, c)),
      fetch = (\<lambda>h req. Inr (service (body req))),
      model_invoke = (\<lambda>h m i opt. answer),
      model_stream = (\<lambda>h m i opt. Inr (chunks, None)),
      model_bindTools = (\<lambda>m args. Inr (Suc m)),
      model_withConfig = (\<lambda>m c. Inr (m + 2))\<rparr>"

definition stub_guarded :: "nat guarded" where
  "stub_guarded =
     withGuardrails 0 \<lparr>projectId = ''p'', apiKey = ''k'', chunkBatchSize = Some 2,
                       baseUrl = Some ''http://x/''\<rparr>"

text \<open>A service that lets every prompt pass and answers every response check the same.\<close>

definition on_response :: "http_response \<Rightarrow> payload \<Rightarrow> http_response" where
  "on_response res p =
     (if validation_target p = Prompt then stub_reply ''passthrough'' None else res)"

definition reply_with_extras :: http_response where
  "reply_with_extras =
     \<lparr>ok = True, status = 200, statusText = ''OK'',
      json_body = Some (JObj [(''action'', JStr ''block''), (''revised_response'', JNull),
                              (''policy'', JStr ''pii''), (''score'', JNum 3),
                              (''__proto__'', JObj [(''polluted'', JBool True)])])\<rparr>"

text \<open>Three runs of the stream, and the request of a check in them.\<close>

definition five_chunks :: "ai_message list" where
  "five_chunks = map AIMessageChunk [''a'', ''b'', ''c'', ''d'', ''e'']"

definition passing_world :: "(nat, string, unit) world" where
  "passing_world = stub_world (\<lambda>p. stub_reply ''passthrough'' None) (Inr (AIMessage ''hi'')) five_chunks"

definition blocking_world :: "(nat, string, unit) world" where
  "blocking_world =
     stub_world (on_response (stub_reply ''block'' (Some ''no''))) (Inr (AIMessage ''hi''))
       (map AIMessageChunk [''a'', ''b'', ''c''])"

definition probe :: "validation_target \<Rightarrow> string \<Rightarrow> http_request" where
  "probe tgt t =
     \<lparr>url = ''http://x/p/validate'', api_key_header = ''k'',
      body = \<lparr>messages = [(''user'', ''q'')], response = t, validation_target = tgt\<rparr>\<rparr>"

definition empty_revision_world :: "(nat, string, unit) world" where
  "empty_revision_world =
     stub_world (on_response (stub_reply ''rephrase'' (Some ''''))) (Inr (AIMessage ''hi''))
       (map AIMessageChunk [''a'', ''b'', ''c''])"

definition unavailable :: http_response where
  "unavailable =
     \<lparr>ok = False, status = 503, statusText = ''Service Unavailable'', json_body = None\<rparr>"

section \<open>The validation client: failures\<close>

lemma validate_events:
  "snd (validateWithGuardrails w h p k msgs resp tgt u)
     = [Fetch (validation_request w p k msgs resp tgt u)
          (fetch w h (validation_request w p k msgs resp tgt u))]"
  by (simp add: validateWithGuardrails_def Let_def)

lemma validate_result:
  "fst (validateWithGuardrails w h p k msgs resp tgt u)
     = read_reply (fetch w h (validation_request w p k msgs resp tgt u))"
  by (simp add: validateWithGuardrails_def Let_def)

text \<open>
  C7. When the service answers a validation request with a status that is not a success,
  \<^verbatim>\<open>validateWithGuardrails\<close> throws an error whose message carries the status code
  and the status text; it has called \<^verbatim>\<open>fetch\<close> exactly once (nothing is retried), and
  its outcome is a throw, never a returned decision, so never a block decision.
\<close>

theorem non_success_status_raises:
  assumes "fetch w h (validation_request w p k msgs resp tgt u) = Inr res"
    and "\<not> ok res"
  shows "validateWithGuardrails w h p k msgs resp tgt u
           = (Inl (GuardrailsError (''Guardrails validation failed: ''
                     @ number_to_string (status res) @ '' '' @ statusText res)),
              [Fetch (validation_request w p k msgs resp tgt u) (Inr res)])
         \<and> (\<forall>r. fst (validateWithGuardrails w h p k msgs resp tgt u) \<noteq> Inr r)"
  using assms by (simp add: validateWithGuardrails_def Let_def read_reply_def)

theorem non_success_status_raises_witness:
  "validateWithGuardrails (stub_world (\<lambda>p. unavailable) (Inr (AIMessage ''hi'')) []) []
       ''p'' ''k'' [] ''text'' Response None
     = (Inl (GuardrailsError ''Guardrails validation failed: 503 Service Unavailable''),
        [Fetch \<lparr>url = ''https://gr-prd.aporia.com/p/validate'', api_key_header = ''k'',
                body = \<lparr>messages = [], response = ''text'', validation_target = Response\<rparr>\<rparr>
           (Inr unavailable)])"
proof -
  let ?w = "stub_world (\<lambda>p. unavailable) (Inr (AIMessage ''hi'')) []"
  have f: "fetch ?w [] (validation_request ?w ''p'' ''k'' [] ''text'' Response None)
             = Inr unavailable"
    by (simp add: stub_world_def)
  have n: "\<not> ok unavailable"
    by (simp add: unavailable_def)
  have s: "number_to_string 503 = ''503''"
    by code_simp
  have r: "validation_request ?w ''p'' ''k'' [] ''text'' Response None =
     \<lparr>url = ''https://gr-prd.aporia.com/p/validate'', api_key_header = ''k'',
       body = \<lparr>messages = [], response = ''text'', validation_target = Response\<rparr>\<rparr>"
    by (simp add: validation_request_def strip_trailing_slashes_def DEFAULT_BASE_URL_def
        stub_world_def)
  show ?thesis
    using non_success_status_raises [OF f n] s r by (simp add: unavailable_def)
qed

section \<open>The validation client: the schema\<close>

lemma parse_action_iff: "(parse_action v = None) = (\<not> recognised_action v)"
  by (cases v rule: parse_action.cases) (auto simp: recognised_action_def)

lemma parse_nullable_iff: "(parse_nullable_string v = None) = (\<not> string_or_null v)"
  by (cases v rule: parse_nullable_string.cases) (auto simp: string_or_null_def)

lemma schema_rejects_iff:
  "(\<exists>issues. GuardrailsResponseSchema_parse j = Inl (ZodError issues))
     = (\<not> recognised_action (json_get j ''action'')
        \<or> \<not> string_or_null (json_get j ''revised_response''))"
proof (cases j)
  case (JObj kvs)
  then show ?thesis
    using parse_action_iff [of "map_of kvs ''action''"]
      parse_nullable_iff [of "map_of kvs ''revised_response''"]
    by (auto split: option.splits)
qed (simp_all add: recognised_action_def)

lemma parse_action_name:
  "parse_action v = Some a \<Longrightarrow> v = Some (JStr (action_name a))"
  by (cases v rule: parse_action.cases) (auto split: if_splits)

lemma parse_nullable_value:
  "parse_nullable_string v = Some r
     \<Longrightarrow> v = (case r of None \<Rightarrow> Some JNull | Some s \<Rightarrow> Some (JStr s))"
  by (cases v rule: parse_nullable_string.cases) auto

lemma schema_accepts:
  assumes "recognised_action (map_of kvs ''action'')"
    and "string_or_null (map_of kvs ''revised_response'')"
  shows "\<exists>r. GuardrailsResponseSchema_parse (JObj kvs) = Inr r
           \<and> map_of kvs ''action'' = Some (JStr (action_name (action r)))
           \<and> map_of kvs ''revised_response''
               = (case revised_response r of None \<Rightarrow> Some JNull | Some s \<Rightarrow> Some (JStr s))"
proof -
  from assms obtain a r where
    a: "parse_action (map_of kvs ''action'') = Some a"
    and r: "parse_nullable_string (map_of kvs ''revised_response'') = Some r"
    using parse_action_iff [of "map_of kvs ''action''"]
      parse_nullable_iff [of "map_of kvs ''revised_response''"]
    by auto
  from parse_action_name [OF a] parse_nullable_value [OF r] a r show ?thesis
    by simp
qed

text \<open>
  The other fields of an accepted reply are those of the reply, in their order, without
  \<^verbatim>\<open>__proto__\<close>.
\<close>

lemma schema_other_fields:
  assumes "GuardrailsResponseSchema_parse (JObj kvs) = Inr r"
  shows "other_fields r
           = filter (\<lambda>(k, v). k \<noteq> ''action'' \<and> k \<noteq> ''revised_response''
                                \<and> k \<noteq> ''__proto__'') kvs"
  using assms by (auto split: option.splits simp: declared_keys_def)

text \<open>A reply that leaves \<^verbatim>\<open>revised_response\<close> out is rejected: the key must be there.\<close>

lemma schema_rejects_missing_revision:
  "GuardrailsResponseSchema_parse (JObj [(''action'', JStr ''passthrough'')])
     = Inl (ZodError [[''revised_response'']])"
  by simp

text \<open>A body that is not JSON fails before the schema is consulted.\<close>

lemma non_json_body:
  assumes "fetch w h (validation_request w p k msgs resp tgt u) = Inr res"
    and "ok res"
    and "json_body res = None"
  shows "fst (validateWithGuardrails w h p k msgs resp tgt u) = Inl SyntaxError"
  using assms by (simp add: validate_result read_reply_def)

text \<open>
  C5. On a reply with a success status whose body deserialises to \<open>j\<close>,
  \<^verbatim>\<open>validateWithGuardrails\<close> fails with a schema error exactly when the \<^verbatim>\<open>action\<close>
  field of \<open>j\<close> is not one of the four recognised strings or its
  \<^verbatim>\<open>revised_response\<close> field is neither a string nor \<^verbatim>\<open>null\<close>; it fails in no other
  way; and a reply whose two fields are as required is accepted whatever other fields
  it carries, with the action and the revised text that the two fields hold.
\<close>

theorem success_reply_schema:
  assumes "fetch w h (validation_request w p k msgs resp tgt u) = Inr res"
    and "ok res"
    and "json_body res = Some j"
  shows "((\<exists>issues. fst (validateWithGuardrails w h p k msgs resp tgt u)
                      = Inl (ZodError issues))
            = (\<not> recognised_action (json_get j ''action'')
               \<or> \<not> string_or_null (json_get j ''revised_response'')))
       \<and> ((\<exists>e. fst (validateWithGuardrails w h p k msgs resp tgt u) = Inl e)
            = (\<exists>issues. fst (validateWithGuardrails w h p k msgs resp tgt u)
                          = Inl (ZodError issues)))
       \<and> (\<forall>kvs. j = JObj kvs \<and> recognised_action (map_of kvs ''action'')
               \<and> string_or_null (map_of kvs ''revised_response'')
             \<longrightarrow> (\<exists>r. fst (validateWithGuardrails w h p k msgs resp tgt u) = Inr r
                     \<and> map_of kvs ''action'' = Some (JStr (action_name (action r)))
                     \<and> map_of kvs ''revised_response''
                         = (case revised_response r of
                              None \<Rightarrow> Some JNull
                            | Some s \<Rightarrow> Some (JStr s))))"
proof -
  have v: "fst (validateWithGuardrails w h p k msgs resp tgt u)
             = GuardrailsResponseSchema_parse j"
    using assms by (simp add: validate_result read_reply_def)
  have only_zod: "\<exists>issues. e = ZodError issues"
    if "GuardrailsResponseSchema_parse j = Inl e" for e
    using that by (cases j) (auto split: option.splits)
  show ?thesis
    unfolding v using schema_rejects_iff [of j] schema_accepts only_zod by blast
qed

theorem success_reply_schema_witness:
  "\<exists>r. fst (validateWithGuardrails
             (stub_world (\<lambda>p. reply_with_extras) (Inr (AIMessage ''hi'')) []) []
             ''p'' ''k'' [] ''text'' Response None) = Inr r
     \<and> action r = Block \<and> revised_response r = None"
proof -
  let ?w = "stub_world (\<lambda>p. reply_with_extras) (Inr (AIMessage ''hi'')) []"
  let ?kvs = "[(''action'', JStr ''block''), (''revised_response'', JNull),
               (''policy'', JStr ''pii''), (''score'', JNum 3),
               (''__proto__'', JObj [(''polluted'', JBool True)])]"
  have f: "fetch ?w [] (validation_request ?w ''p'' ''k'' [] ''text'' Response None)
             = Inr reply_with_extras"
    by (simp add: stub_world_def)
  have o: "ok reply_with_extras"
    by (simp add: reply_with_extras_def)
  have j: "json_body reply_with_extras = Some (JObj ?kvs)"
    by (simp add: reply_with_extras_def)
  have c: "recognised_action (map_of ?kvs ''action'')"
    "string_or_null (map_of ?kvs ''revised_response'')"
    by (simp_all add: recognised_action_def string_or_null_def)
  from success_reply_schema [OF f o j] c
  obtain r where r: "fst (validateWithGuardrails ?w [] ''p'' ''k'' [] ''text'' Response None)
                       = Inr r"
    and a: "map_of ?kvs ''action'' = Some (JStr (action_name (action r)))"
    and t: "map_of ?kvs ''revised_response''
              = (case revised_response r of None \<Rightarrow> Some JNull | Some s \<Rightarrow> Some (JStr s))"
    by blast
  from a have "action r = Block"
    by (cases "action r") simp_all
  moreover from t have "revised_response r = None"
    by (cases "revised_response r") simp_all
  ultimately show ?thesis
    using r by blast
qed

text \<open>The same reply: its \<^verbatim>\<open>__proto__\<close> key is not among the fields of the result.\<close>

lemma reply_with_extras_fields:
  "GuardrailsResponseSchema_parse
     (JObj [(''action'', JStr ''block''), (''revised_response'', JNull),
            (''policy'', JStr ''pii''), (''score'', JNum 3),
            (''__proto__'', JObj [(''polluted'', JBool True)])])
     = Inr \<lparr>action = Block, revised_response = None,
            other_fields = [(''policy'', JStr ''pii''), (''score'', JNum 3)]\<rparr>"
  by (simp add: declared_keys_def)

section \<open>The checks of a guarded model\<close>

lemma js_or_substitute: "js_or (revised_response r) d = substitute r d"
  by (cases "revised_response r") (simp_all add: substitute_def)

lemma prompt_condition_eq:
  "PROMPT_CONDITION w g h msgs
     = (case read_reply (fetch w h (prompt_request w g msgs)) of
          Inl e \<Rightarrow> Inl e | Inr r \<Rightarrow> Inr (decide r),
        [Fetch (prompt_request w g msgs) (fetch w h (prompt_request w g msgs))])"
  by (simp add: PROMPT_CONDITION_def createPromptCondition_def validateWithGuardrails_def
      prompt_request_def Let_def split: sum.splits)

lemma response_condition_eq:
  "RESPONSE_CONDITION w g h resp msgs
     = (case read_reply (fetch w h (response_request w g msgs (content resp))) of
          Inl e \<Rightarrow> Inl e | Inr r \<Rightarrow> Inr (decide r),
        [Fetch (response_request w g msgs (content resp))
           (fetch w h (response_request w g msgs (content resp)))])"
  by (simp add: RESPONSE_CONDITION_def createResponseCondition_def validateWithGuardrails_def
      response_request_def Let_def split: sum.splits)

lemma decide_simps [simp]:
  "shouldBlock (decide r) = (action r \<noteq> Passthrough)"
  "overrideResponse (decide r) = revised_response r"
  by (cases "action r"; simp add: decide_def)+

text \<open>
  A prompt check that fails, in whatever way, fails the guarded call: after the one
  \<^verbatim>\<open>fetch\<close>, with no call of the model and nothing yielded.
\<close>

lemma prompt_check_failure_propagates:
  assumes "extractMessages w input = Inr msgs"
    and "read_reply (fetch w h (prompt_request w g msgs)) = Inl e"
  shows "guarded_invoke w h g input options
           = (Inl e, [Fetch (prompt_request w g msgs) (fetch w h (prompt_request w g msgs))])"
    and "guarded_stream w h g input options
           = ([], [Fetch (prompt_request w g msgs) (fetch w h (prompt_request w g msgs))],
              Some e)"
  using assms
  by (simp_all add: guarded_invoke_def guarded_stream_def prompt_condition_eq)

subsection \<open>The concrete world, evaluated\<close>

lemma stub_extract:
  "extractMessages (stub_world service answer chunks) q = Inr [BaseMessage ''user'' q]"
  by (simp add: extractMessages_def stub_world_def)

lemma stub_prompt_request:
  "prompt_request (stub_world service answer chunks) stub_guarded [BaseMessage ''user'' q]
     = \<lparr>url = ''http://x/p/validate'', api_key_header = ''k'',
        body = \<lparr>messages = [(''user'', q)], response = '''', validation_target = Prompt\<rparr>\<rparr>"
  by (simp add: prompt_request_def validation_request_def stub_guarded_def withGuardrails_def
      strip_trailing_slashes_def stub_world_def)

lemma stub_response_request:
  "response_request (stub_world service answer chunks) stub_guarded [BaseMessage ''user'' q] t
     = \<lparr>url = ''http://x/p/validate'', api_key_header = ''k'',
        body = \<lparr>messages = [(''user'', q)], response = t, validation_target = Response\<rparr>\<rparr>"
  by (simp add: response_request_def validation_request_def stub_guarded_def withGuardrails_def
      strip_trailing_slashes_def stub_world_def)

lemma stub_fetch:
  "fetch (stub_world service answer chunks) h req = Inr (service (body req))"
  by (simp add: stub_world_def)

lemma read_stub_reply:
  "read_reply (Inr (stub_reply ''block'' rv))
     = Inr \<lparr>action = Block, revised_response = rv, other_fields = []\<rparr>"
  "read_reply (Inr (stub_reply ''modify'' rv))
     = Inr \<lparr>action = Modify, revised_response = rv, other_fields = []\<rparr>"
  "read_reply (Inr (stub_reply ''passthrough'' rv))
     = Inr \<lparr>action = Passthrough, revised_response = rv, other_fields = []\<rparr>"
  "read_reply (Inr (stub_reply ''rephrase'' rv))
     = Inr \<lparr>action = Rephrase, revised_response = rv, other_fields = []\<rparr>"
  by (cases rv; simp add: read_reply_def stub_reply_def declared_keys_def)+

section \<open>A blocked prompt\<close>

text \<open>
  C1, as amended. When the prompt check returns block, modify or rephrase, the guarded
  single-turn call and the guarded streaming call make no call of the underlying model
  (their only event is the \<^verbatim>\<open>fetch\<close> of the prompt check); the single-turn call
  returns one assistant message and the stream yields exactly one chunk and ends; the
  content of either is the check's revised text when that is a string that is not empty,
  and the fixed default prompt-override string when the revision is \<^verbatim>\<open>null\<close> or the
  empty string.
\<close>

theorem blocked_prompt_short_circuits:
  assumes "extractMessages w input = Inr msgs"
    and "read_reply (fetch w h (prompt_request w g msgs)) = Inr r"
    and "action r = Block \<or> action r = Modify \<or> action r = Rephrase"
  shows "guarded_invoke w h g input options
           = (Inr (AIMessage (substitute r PROMPT_OVERRIDE)),
              [Fetch (prompt_request w g msgs) (fetch w h (prompt_request w g msgs))])
       \<and> guarded_stream w h g input options
           = ([AIMessageChunk (substitute r PROMPT_OVERRIDE)],
              [Fetch (prompt_request w g msgs) (fetch w h (prompt_request w g msgs))], None)
       \<and> filter is_model_call (snd (guarded_invoke w h g input options)) = []
       \<and> filter is_model_call (fst (snd (guarded_stream w h g input options))) = []"
proof -
  from assms(3) have b: "action r \<noteq> Passthrough"
    by auto
  show ?thesis
    using assms(1,2) b
    by (simp add: guarded_invoke_def guarded_stream_def prompt_condition_eq js_or_substitute)
qed

theorem blocked_prompt_short_circuits_witness:
  "guarded_invoke
       (stub_world (\<lambda>p. stub_reply ''modify'' (Some ''safe text'')) (Inr (AIMessage ''hi'')) [])
       [] stub_guarded ''q'' None
     = (Inr (AIMessage ''safe text''),
        [Fetch \<lparr>url = ''http://x/p/validate'', api_key_header = ''k'',
                body = \<lparr>messages = [(''user'', ''q'')], response = '''',
                         validation_target = Prompt\<rparr>\<rparr>
           (Inr (stub_reply ''modify'' (Some ''safe text'')))])
   \<and> fst (guarded_stream
       (stub_world (\<lambda>p. stub_reply ''modify'' (Some ''safe text'')) (Inr (AIMessage ''hi'')) [])
       [] stub_guarded ''q'' None) = [AIMessageChunk ''safe text'']"
proof -
  let ?w = "stub_world (\<lambda>p. stub_reply ''modify'' (Some ''safe text''))
              (Inr (AIMessage ''hi'')) []"
  let ?r = "\<lparr>action = Modify, revised_response = Some ''safe text'', other_fields = []\<rparr>"
  have r: "read_reply (fetch ?w [] (prompt_request ?w stub_guarded [BaseMessage ''user'' ''q'']))
             = Inr ?r"
    by (simp add: stub_fetch read_stub_reply)
  have a: "action ?r = Block \<or> action ?r = Modify \<or> action ?r = Rephrase"
    by simp
  have s: "substitute ?r PROMPT_OVERRIDE = ''safe text''"
    by (simp add: substitute_def)
  show ?thesis
    using blocked_prompt_short_circuits [OF stub_extract r a, of None]
    by (simp add: s stub_prompt_request stub_fetch)
qed

text \<open>
  The claim as first stated fails where the check supplies the empty string as its
  revised text: the content is then the default, not the revised text.
\<close>

theorem empty_revision_counterexample:
  "read_reply
     (fetch (stub_world (\<lambda>p. stub_reply ''block'' (Some '''')) (Inr (AIMessage ''hi'')) []) []
       (prompt_request
          (stub_world (\<lambda>p. stub_reply ''block'' (Some '''')) (Inr (AIMessage ''hi'')) [])
          stub_guarded [BaseMessage ''user'' ''q'']))
     = Inr \<lparr>action = Block, revised_response = Some '''', other_fields = []\<rparr>
   \<and> fst (guarded_invoke
            (stub_world (\<lambda>p. stub_reply ''block'' (Some '''')) (Inr (AIMessage ''hi'')) [])
            [] stub_guarded ''q'' None)
     = Inr (AIMessage ''[Prompt intercepted: custom response]'')
   \<and> fst (guarded_stream
            (stub_world (\<lambda>p. stub_reply ''block'' (Some '''')) (Inr (AIMessage ''hi'')) [])
            [] stub_guarded ''q'' None)
     = [AIMessageChunk ''[Prompt intercepted: custom response]'']
   \<and> AIMessage ''[Prompt intercepted: custom response]'' \<noteq> AIMessage ''''"
  by (simp add: guarded_invoke_def guarded_stream_def stub_extract prompt_condition_eq
      stub_fetch read_stub_reply PROMPT_OVERRIDE_def AIMessage_def)

section \<open>The single-turn call on a prompt that passes\<close>

text \<open>
  C4. When the prompt check returns passthrough, the guarded single-turn call calls the
  underlying model's \<^verbatim>\<open>invoke\<close> exactly once, on the original input and options,
  whatever happens afterwards; and when that call returns a message \<open>x\<close> and the response
  check on the content of \<open>x\<close> returns passthrough too, the guarded call returns \<open>x\<close>
  itself, all its fields unchanged, after exactly these three events.
\<close>

theorem passing_prompt_invokes_once:
  assumes "extractMessages w input = Inr msgs"
    and "read_reply (fetch w h (prompt_request w g msgs)) = Inr r"
    and "action r = Passthrough"
  shows "filter is_model_call (snd (guarded_invoke w h g input options))
           = [CallInvoke (target g) input options]
       \<and> (\<forall>x r'.
             model_invoke w
                 (h @ [Fetch (prompt_request w g msgs) (fetch w h (prompt_request w g msgs))])
                 (target g) input options = Inr x
             \<and> read_reply (fetch w
                   (h @ [Fetch (prompt_request w g msgs) (fetch w h (prompt_request w g msgs)),
                         CallInvoke (target g) input options])
                   (response_request w g msgs (content x))) = Inr r'
             \<and> action r' = Passthrough
             \<longrightarrow> guarded_invoke w h g input options
                   = (Inr x,
                      [Fetch (prompt_request w g msgs) (fetch w h (prompt_request w g msgs)),
                       CallInvoke (target g) input options,
                       Fetch (response_request w g msgs (content x))
                         (fetch w
                            (h @ [Fetch (prompt_request w g msgs)
                                    (fetch w h (prompt_request w g msgs)),
                                  CallInvoke (target g) input options])
                            (response_request w g msgs (content x)))]))"
  using assms
  by (auto simp add: guarded_invoke_def prompt_condition_eq response_condition_eq
      invoke_catch_def Let_def split: sum.splits)

theorem passing_prompt_invokes_once_witness:
  "filter is_model_call (snd (guarded_invoke
       (stub_world (\<lambda>p. stub_reply ''passthrough'' None)
          (Inr \<lparr>content = ''hello'', tool_calls = [''lookup'']\<rparr>) [])
       [] stub_guarded ''q'' None))
     = [CallInvoke 0 ''q'' None]
   \<and> fst (guarded_invoke
       (stub_world (\<lambda>p. stub_reply ''passthrough'' None)
          (Inr \<lparr>content = ''hello'', tool_calls = [''lookup'']\<rparr>) [])
       [] stub_guarded ''q'' None)
     = Inr \<lparr>content = ''hello'', tool_calls = [''lookup'']\<rparr>"
proof -
  let ?x = "\<lparr>content = ''hello'', tool_calls = [''lookup'']\<rparr>"
  let ?w = "stub_world (\<lambda>p. stub_reply ''passthrough'' None) (Inr ?x) []"
  let ?r = "\<lparr>action = Passthrough, revised_response = None, other_fields = []\<rparr>"
  have r: "read_reply (fetch ?w [] (prompt_request ?w stub_guarded [BaseMessage ''user'' ''q'']))
             = Inr ?r"
    by (simp add: stub_fetch read_stub_reply)
  have a: "action ?r = Passthrough"
    by simp
  have m: "model_invoke ?w h (target stub_guarded) ''q'' None = Inr ?x" for h
    by (simp add: stub_world_def)
  have r': "read_reply (fetch ?w h (response_request ?w stub_guarded [BaseMessage ''user'' ''q''] (content ?x)))
             = Inr ?r" for h
    by (simp add: stub_fetch read_stub_reply)
  have t: "target stub_guarded = 0"
    by (simp add: stub_guarded_def withGuardrails_def)
  show ?thesis
    using passing_prompt_invokes_once [OF stub_extract r a, of None] m r' a
    by (simp add: t)
qed

text \<open>
  C6. When the prompt check passes and the underlying model's \<^verbatim>\<open>invoke\<close> throws
  \<open>e\<close>, the guarded single-turn call returns the fixed apology message if \<open>e\<close> is
  flagged as a content-filter rejection (\<^verbatim>\<open>e && e.code === "content_filter"\<close>), and
  otherwise throws \<open>e\<close> itself; no response check is made.
\<close>

theorem model_error_handling:
  assumes "extractMessages w input = Inr msgs"
    and "read_reply (fetch w h (prompt_request w g msgs)) = Inr r"
    and "action r = Passthrough"
    and "model_invoke w
           (h @ [Fetch (prompt_request w g msgs) (fetch w h (prompt_request w g msgs))])
           (target g) input options = Inl e"
  shows "guarded_invoke w h g input options
           = (if is_content_filter e then Inr (AIMessage APOLOGY) else Inl e,
              [Fetch (prompt_request w g msgs) (fetch w h (prompt_request w g msgs)),
               CallInvoke (target g) input options])"
  using assms
  by (simp add: guarded_invoke_def prompt_condition_eq invoke_catch_def Let_def)

theorem model_error_handling_witness:
  "fst (guarded_invoke
       (stub_world (\<lambda>p. stub_reply ''passthrough'' None)
          (Inl (ThrownValue (Some ''content_filter'') ''filtered'')) [])
       [] stub_guarded ''q'' None)
     = Inr (AIMessage ''I'm sorry, but I can't assist with that request.'')
   \<and> fst (guarded_invoke
       (stub_world (\<lambda>p. stub_reply ''passthrough'' None)
          (Inl (ThrownValue (Some ''rate_limit'') ''slow down'')) [])
       [] stub_guarded ''q'' None)
     = Inl (ThrownValue (Some ''rate_limit'') ''slow down'')"
proof -
  let ?r = "\<lparr>action = Passthrough, revised_response = None, other_fields = []\<rparr>"
  have r: "read_reply (fetch (stub_world (\<lambda>p. stub_reply ''passthrough'' None) answer [])
              [] (prompt_request (stub_world (\<lambda>p. stub_reply ''passthrough'' None) answer [])
                    stub_guarded [BaseMessage ''user'' ''q'']))
             = Inr ?r" for answer
    by (simp add: stub_fetch read_stub_reply)
  have a: "action ?r = Passthrough"
    by simp
  have m: "model_invoke (stub_world (\<lambda>p. stub_reply ''passthrough'' None) (Inl e) [])
             h (target stub_guarded) ''q'' None = Inl e" for h e
    by (simp add: stub_world_def)
  show ?thesis
    using model_error_handling [where options = None
          and e = "ThrownValue (Some ''content_filter'') ''filtered''", OF stub_extract r a m]
      model_error_handling [where options = None
          and e = "ThrownValue (Some ''rate_limit'') ''slow down''", OF stub_extract r a m]
    by (simp add: APOLOGY_def)
qed

section \<open>Tool binding and reconfiguration keep the guard\<close>

lemma rewrap_closure: "withGuardrails m' (closure_config g) = g\<lparr>target := m'\<rparr>"
  by (simp add: withGuardrails_def closure_config_def)

lemma rewrap_same_config:
  "withGuardrails m' (closure_config (withGuardrails m cfg)) = withGuardrails m' cfg"
  by (simp add: withGuardrails_def closure_config_def)

lemma derive_guarded_eq:
  "derive_guarded w g ops
     = (case derive_model w (target g) ops of
          Inl e \<Rightarrow> Inl e
        | Inr m' \<Rightarrow> Inr (g\<lparr>target := m'\<rparr>))"
proof (induction ops arbitrary: g)
  case Nil
  show ?case by simp
next
  case (Cons op ops)
  show ?case
  proof (cases op)
    case (BindTools args)
    then show ?thesis
      by (cases "model_bindTools w (target g) args")
        (simp_all add: guarded_bindTools_def rewrap_closure Cons.IH split: sum.splits)
  next
    case (WithConfig c)
    then show ?thesis
      by (cases "model_withConfig w (target g) c")
        (simp_all add: guarded_withConfig_def rewrap_closure Cons.IH split: sum.splits)
  qed
qed

text \<open>
  C8. On a guarded model, \<^verbatim>\<open>bindTools\<close> and \<^verbatim>\<open>withConfig\<close> call the original
  operation on the target and, when it returns a new instance, return that instance
  wrapped by \<^verbatim>\<open>withGuardrails\<close> again, which gives the same proxy but for its target:
  the same project identifier, API key, batch size after its default and base URL
  after its default. What the original operation throws is thrown. So every model
  derived by any sequence of the two operations is the derived underlying model under
  the configuration of the first wrap.
\<close>

theorem derivatives_are_rewrapped:
  "(\<forall>m'. model_bindTools w (target g) args = Inr m'
      \<longrightarrow> guarded_bindTools w g args = Inr (withGuardrails m' (closure_config g))
          \<and> withGuardrails m' (closure_config g) = g\<lparr>target := m'\<rparr>)
   \<and> (\<forall>m'. model_withConfig w (target g) c = Inr m'
      \<longrightarrow> guarded_withConfig w g c = Inr (withGuardrails m' (closure_config g))
          \<and> withGuardrails m' (closure_config g) = g\<lparr>target := m'\<rparr>)
   \<and> (\<forall>e. model_bindTools w (target g) args = Inl e \<longrightarrow> guarded_bindTools w g args = Inl e)
   \<and> (\<forall>e. model_withConfig w (target g) c = Inl e \<longrightarrow> guarded_withConfig w g c = Inl e)
   \<and> derive_guarded w (withGuardrails m cfg) ops
       = (case derive_model w m ops of
            Inl e \<Rightarrow> Inl e
          | Inr m' \<Rightarrow> Inr (withGuardrails m' cfg))
   \<and> (\<forall>g'. derive_guarded w g ops = Inr g'
      \<longrightarrow> derive_model w (target g) ops = Inr (target g')
          \<and> bound_projectId g' = bound_projectId g
          \<and> bound_apiKey g' = bound_apiKey g
          \<and> bound_chunkBatchSize g' = bound_chunkBatchSize g
          \<and> bound_baseUrl g' = bound_baseUrl g)"
proof -
  have same: "derive_model w (target g) ops = Inr (target g')
          \<and> bound_projectId g' = bound_projectId g
          \<and> bound_apiKey g' = bound_apiKey g
          \<and> bound_chunkBatchSize g' = bound_chunkBatchSize g
          \<and> bound_baseUrl g' = bound_baseUrl g"
    if "derive_guarded w g ops = Inr g'" for g'
    using that unfolding derive_guarded_eq by (auto split: sum.splits)
  have "derive_guarded w (withGuardrails m cfg) ops
       = (case derive_model w m ops of
            Inl e \<Rightarrow> Inl e
          | Inr m' \<Rightarrow> Inr (withGuardrails m' cfg))"
    unfolding derive_guarded_eq by (simp add: withGuardrails_def split: sum.splits)
  then show ?thesis
    using same by (simp add: guarded_bindTools_def guarded_withConfig_def rewrap_closure)
qed

theorem derivatives_are_rewrapped_witness:
  "guarded_bindTools (stub_world (\<lambda>p. unavailable) (Inr (AIMessage ''hi'')) [])
       (withGuardrails 0 \<lparr>projectId = ''p'', apiKey = ''k'', chunkBatchSize = None, baseUrl = None\<rparr>)
       [()]
     = Inr \<lparr>target = 1, bound_projectId = ''p'', bound_apiKey = ''k'',
            bound_chunkBatchSize = 200, bound_baseUrl = ''https://gr-prd.aporia.com''\<rparr>
   \<and> derive_guarded (stub_world (\<lambda>p. unavailable) (Inr (AIMessage ''hi'')) [])
       stub_guarded [BindTools [()], WithConfig (), BindTools []]
     = Inr \<lparr>target = 4, bound_projectId = ''p'', bound_apiKey = ''k'',
            bound_chunkBatchSize = 2, bound_baseUrl = ''http://x/''\<rparr>"
proof -
  let ?w = "stub_world (\<lambda>p. unavailable) (Inr (AIMessage ''hi'')) []"
  let ?cfg = "\<lparr>projectId = ''p'', apiKey = ''k'', chunkBatchSize = None, baseUrl = None\<rparr>"
  let ?cfg2 = "\<lparr>projectId = ''p'', apiKey = ''k'', chunkBatchSize = Some 2,
                       baseUrl = Some ''http://x/''\<rparr>"
  have b: "model_bindTools ?w (target (withGuardrails 0 ?cfg)) [()] = Inr 1"
    by (simp add: stub_world_def withGuardrails_def)
  have d: "derive_model ?w 0 [BindTools [()], WithConfig (), BindTools []] = Inr 4"
    by (simp add: stub_world_def)
  show ?thesis
    using derivatives_are_rewrapped [of ?w "withGuardrails 0 ?cfg" "[()]" "()" 0 ?cfg2
        "[BindTools [()], WithConfig (), BindTools []]"] b d
    by (simp add: stub_guarded_def withGuardrails_def DEFAULT_CHUNK_BATCH_SIZE_def
        DEFAULT_BASE_URL_def)
qed

section \<open>The streaming loop\<close>

lemma js_or_content [simp]: "js_or (Some s) [] = s"
  by simp

lemma text_of_simps [simp]:
  "text_of [] = []"
  "text_of (c # cs) = content c @ text_of cs"
  "text_of (cs @ ds) = text_of cs @ text_of ds"
  by (simp_all add: text_of_def)

lemma response_request_fields [simp]:
  "validation_target (body (response_request w g msgs t)) = Response"
  "response (body (response_request w g msgs t)) = t"
  by (simp_all add: response_request_def validation_request_def Let_def)

lemma prompt_request_fields [simp]:
  "validation_target (body (prompt_request w g msgs)) = Prompt"
  by (simp_all add: prompt_request_def validation_request_def Let_def)

lemma stream_loop_Cons:
  "stream_loop w g msgs h (c # cs) ending n lst acc =
     (if js_rem (int (Suc n)) (bound_chunkBatchSize g) = Some 0 then
        (case read_reply (fetch w (h @ [Next (Some c)])
                (response_request w g msgs (acc @ content c))) of
           Inl e \<Rightarrow>
             ([], [Next (Some c),
                   Fetch (response_request w g msgs (acc @ content c))
                     (fetch w (h @ [Next (Some c)])
                        (response_request w g msgs (acc @ content c))),
                   Return], Inl e)
         | Inr r \<Rightarrow>
             if action r \<noteq> Passthrough then
               ([AIMessageChunk (substitute r RESPONSE_OVERRIDE)],
                [Next (Some c),
                 Fetch (response_request w g msgs (acc @ content c))
                   (fetch w (h @ [Next (Some c)])
                      (response_request w g msgs (acc @ content c))),
                 Return],
                Inr (Suc n, Some c, acc @ content c))
             else
               (case stream_loop w g msgs
                       (h @ [Next (Some c),
                             Fetch (response_request w g msgs (acc @ content c))
                               (fetch w (h @ [Next (Some c)])
                                  (response_request w g msgs (acc @ content c)))])
                       cs ending (Suc n) (Some c) (acc @ content c) of
                  (ys, es', r) \<Rightarrow>
                    (c # ys,
                     Next (Some c)
                       # Fetch (response_request w g msgs (acc @ content c))
                           (fetch w (h @ [Next (Some c)])
                              (response_request w g msgs (acc @ content c)))
                       # es', r)))
      else
        (case stream_loop w g msgs (h @ [Next (Some c)]) cs ending (Suc n) (Some c)
                (acc @ content c) of
           (ys, es', r) \<Rightarrow> (c # ys, Next (Some c) # es', r)))"
  by (simp add: response_condition_eq AIMessage_def js_or_substitute Let_def
      split: sum.splits)


lemma stream_loop_Cons_cases [consumes 1, case_names skip pass block fail]:
  assumes "stream_loop w g msgs h (c # cs) ending n lst acc = (ys, es, r)"
  obtains
    ys' es' where "js_rem (int (Suc n)) (bound_chunkBatchSize g) \<noteq> Some 0"
      and "stream_loop w g msgs (h @ [Next (Some c)]) cs ending (Suc n) (Some c)
             (acc @ content c) = (ys', es', r)"
      and "ys = c # ys'" and "es = Next (Some c) # es'"
  | ys' es' r' a where "js_rem (int (Suc n)) (bound_chunkBatchSize g) = Some 0"
      and "a = fetch w (h @ [Next (Some c)]) (response_request w g msgs (acc @ content c))"
      and "read_reply a = Inr r'" and "action r' = Passthrough"
      and "stream_loop w g msgs
             (h @ [Next (Some c), Fetch (response_request w g msgs (acc @ content c)) a])
             cs ending (Suc n) (Some c) (acc @ content c) = (ys', es', r)"
      and "ys = c # ys'"
      and "es = Next (Some c) # Fetch (response_request w g msgs (acc @ content c)) a # es'"
  | r' a where "js_rem (int (Suc n)) (bound_chunkBatchSize g) = Some 0"
      and "a = fetch w (h @ [Next (Some c)]) (response_request w g msgs (acc @ content c))"
      and "read_reply a = Inr r'" and "action r' \<noteq> Passthrough"
      and "ys = [AIMessageChunk (substitute r' RESPONSE_OVERRIDE)]"
      and "es = [Next (Some c), Fetch (response_request w g msgs (acc @ content c)) a, Return]"
      and "r = Inr (Suc n, Some c, acc @ content c)"
  | e a where "js_rem (int (Suc n)) (bound_chunkBatchSize g) = Some 0"
      and "a = fetch w (h @ [Next (Some c)]) (response_request w g msgs (acc @ content c))"
      and "read_reply a = Inl e"
      and "ys = []"
      and "es = [Next (Some c), Fetch (response_request w g msgs (acc @ content c)) a, Return]"
      and "r = Inl e"
  using assms unfolding stream_loop_Cons
  by (auto split: if_splits sum.splits prod.splits)

lemma fragments_of_append [simp]:
  "fragments_of (es @ fs) = fragments_of es @ fragments_of fs"
  by (induction es rule: fragments_of.induct) simp_all

text \<open>The state after the loop, read off its events.\<close>

lemma loop_state:
  assumes "stream_loop w g msgs h cs ending n lst acc = (ys, es, Inr (n', lst', acc'))"
  shows "n' = n + length (fragments_of es)
       \<and> acc' = acc @ text_of (fragments_of es)
       \<and> lst' = (if fragments_of es = [] then lst else Some (last (fragments_of es)))
       \<and> fragments_of es = take (length (fragments_of es)) cs"
  using assms
proof (induction cs arbitrary: h n lst acc ys es)
  case Nil
  then show ?case
    by (auto split: option.splits)
next
  case (Cons c cs)
  from Cons.prems show ?case
  proof (cases rule: stream_loop_Cons_cases)
    case (skip ys' es')
    from Cons.IH [OF skip(2)] show ?thesis
      by (simp add: skip(4))
  next
    case (pass ys' es' r' a)
    from Cons.IH [OF pass(5)] show ?thesis
      by (simp add: pass(7))
  next
    case (block r' a)
    then show ?thesis by simp
  next
    case (fail e a)
    then show ?thesis by simp
  qed
qed

lemma loop_fetches:
  assumes "stream_loop w g msgs h cs ending n lst acc = (ys, es, r)"
    and "es = pre @ Fetch req a # post"
  shows "req = response_request w g msgs (acc @ text_of (fragments_of pre))
       \<and> a = fetch w (h @ pre) req
       \<and> js_rem (int (n + length (fragments_of pre))) (bound_chunkBatchSize g) = Some 0
       \<and> fragments_of pre \<noteq> []
       \<and> fragments_of pre = take (length (fragments_of pre)) cs"
  using assms
proof (induction cs arbitrary: h n lst acc ys es pre)
  case Nil
  then show ?case
    by (auto simp: append_eq_Cons_conv Cons_eq_append_conv split: option.splits)
next
  case (Cons c cs)
  from Cons.prems(1) show ?case
  proof (cases rule: stream_loop_Cons_cases)
    case (skip ys' es')
    from skip(4) Cons.prems(2) obtain pre' where
      pre: "pre = Next (Some c) # pre'" and es': "es' = pre' @ Fetch req a # post"
      by (auto simp: append_eq_Cons_conv)
    from Cons.IH [OF skip(2) es'] show ?thesis
      by (simp add: pre)
  next
    case (pass ys' es' r' a')
    from pass(7) Cons.prems(2) consider
      (here) "pre = [Next (Some c)]" "req = response_request w g msgs (acc @ content c)" "a = a'"
      | (later) pre' where
        "pre = Next (Some c) # Fetch (response_request w g msgs (acc @ content c)) a' # pre'"
        "es' = pre' @ Fetch req a # post"
      by (auto simp: append_eq_Cons_conv)
    then show ?thesis
    proof cases
      case here
      then show ?thesis
        using pass(1,2) by simp
    next
      case later
      from Cons.IH [OF pass(5) later(2)] show ?thesis
        by (simp add: later(1))
    qed
  next
    case (block r' a')
    from block(6) Cons.prems(2)
    have "pre = [Next (Some c)]" "req = response_request w g msgs (acc @ content c)" "a = a'"
      by (auto simp: append_eq_Cons_conv)
    then show ?thesis
      using block(1,2) by simp
  next
    case (fail e a')
    from fail(5) Cons.prems(2)
    have "pre = [Next (Some c)]" "req = response_request w g msgs (acc @ content c)" "a = a'"
      by (auto simp: append_eq_Cons_conv)
    then show ?thesis
      using fail(1,2) by simp
  qed
qed

text \<open>A check that blocks ends the loop: the fragment that completed the batch is withheld.\<close>

lemma loop_block:
  assumes "stream_loop w g msgs h cs ending n lst acc = (ys, es, r)"
    and "es = pre @ Fetch req a # post"
    and "read_reply a = Inr rr"
    and "action rr \<noteq> Passthrough"
  shows "ys = butlast (fragments_of pre) @ [AIMessageChunk (substitute rr RESPONSE_OVERRIDE)]
       \<and> post = [Return]
       \<and> (\<exists>st. r = Inr st)"
  using assms(1,2)
proof (induction cs arbitrary: h n lst acc ys es pre)
  case Nil
  then show ?case
    by (auto simp: append_eq_Cons_conv Cons_eq_append_conv split: option.splits)
next
  case (Cons c cs)
  from Cons.prems(1) show ?case
  proof (cases rule: stream_loop_Cons_cases)
    case (skip ys' es')
    from skip(4) Cons.prems(2) obtain pre' where
      pre: "pre = Next (Some c) # pre'" and es': "es' = pre' @ Fetch req a # post"
      by (auto simp: append_eq_Cons_conv)
    from loop_fetches [OF skip(2) es'] have ne: "fragments_of pre' \<noteq> []"
      by simp
    from Cons.IH [OF skip(2) es'] ne show ?thesis
      by (simp add: pre skip(3))
  next
    case (pass ys' es' r' a')
    from pass(7) Cons.prems(2) consider
      (here) "pre = [Next (Some c)]" "a = a'"
      | (later) pre' where
        "pre = Next (Some c) # Fetch (response_request w g msgs (acc @ content c)) a' # pre'"
        "es' = pre' @ Fetch req a # post"
      by (auto simp: append_eq_Cons_conv)
    then show ?thesis
    proof cases
      case here
      with pass(3,4) assms(3,4) show ?thesis by simp
    next
      case later
      from loop_fetches [OF pass(5) later(2)] have ne: "fragments_of pre' \<noteq> []"
        by simp
      from Cons.IH [OF pass(5) later(2)] ne show ?thesis
        by (simp add: later(1) pass(6))
    qed
  next
    case (block r' a')
    from block(6) Cons.prems(2)
    have "pre = [Next (Some c)]" "a = a'" "post = [Return]"
      by (auto simp: append_eq_Cons_conv)
    with block assms(3) show ?thesis
      by simp
  next
    case (fail e a')
    from fail(5) Cons.prems(2)
    have "a = a'"
      by (auto simp: append_eq_Cons_conv)
    with fail(3) assms(3) show ?thesis
      by simp
  qed
qed

text \<open>The end of the underlying stream is the last event of the loop.\<close>

lemma loop_end:
  assumes "stream_loop w g msgs h cs ending n lst acc = (ys, es, r)"
    and "es = pre @ Next None # post"
  shows "post = [] \<and> ys = cs \<and> fragments_of pre = cs \<and> ending = None
       \<and> r = Inr (n + length cs, if cs = [] then lst else Some (last cs), acc @ text_of cs)"
  using assms
proof (induction cs arbitrary: h n lst acc ys es pre)
  case Nil
  then show ?case
    by (auto simp: append_eq_Cons_conv Cons_eq_append_conv split: option.splits)
next
  case (Cons c cs)
  from Cons.prems(1) show ?case
  proof (cases rule: stream_loop_Cons_cases)
    case (skip ys' es')
    from skip(4) Cons.prems(2) obtain pre' where
      pre: "pre = Next (Some c) # pre'" and es': "es' = pre' @ Next None # post"
      by (auto simp: append_eq_Cons_conv)
    from Cons.IH [OF skip(2) es'] show ?thesis
      by (simp add: pre skip(3))
  next
    case (pass ys' es' r' a')
    from pass(7) Cons.prems(2) obtain pre' where
      pre: "pre = Next (Some c) # Fetch (response_request w g msgs (acc @ content c)) a' # pre'"
      and es': "es' = pre' @ Next None # post"
      by (auto simp: append_eq_Cons_conv)
    from Cons.IH [OF pass(5) es'] show ?thesis
      by (simp add: pre pass(6))
  next
    case (block r' a')
    from block(6) Cons.prems(2) show ?thesis
      by (auto simp: append_eq_Cons_conv)
  next
    case (fail e a')
    from fail(5) Cons.prems(2) show ?thesis
      by (auto simp: append_eq_Cons_conv)
  qed
qed


lemma check_positions_append:
  "check_positions n (es @ fs)
     = check_positions n es @ check_positions (n + length (fragments_of es)) fs"
  by (induction n es rule: check_positions.induct) simp_all

lemma length_check_positions:
  "length (check_positions n es) = length (filter is_response_check es)"
  by (induction n es rule: check_positions.induct) simp_all

lemma js_rem_nat:
  "0 < b \<Longrightarrow> (js_rem (int j) (int b) = Some 0) = (j mod b = 0)"
  by (simp add: js_rem_def sgn_if flip: of_nat_mod)

lemma js_rem_dvd:
  "0 < n \<Longrightarrow> (js_rem (int n) B = Some 0) = (B dvd int n)"
  by (auto simp: js_rem_def mod_eq_0_iff_dvd)

lemma upt_step: "[Suc n..<Suc (Suc (n + k))] = Suc n # [Suc (Suc n)..<Suc (Suc (n + k))]"
  by (simp add: upt_conv_Cons del: upt_Suc)

lemma count_multiples:
  "0 < b \<Longrightarrow> length (filter (\<lambda>j. j mod b = 0) [Suc 0..<Suc F]) = F div b"
proof (induction F)
  case 0
  then show ?case by simp
next
  case (Suc F)
  then show ?case
    by (auto simp: div_Suc mod_Suc)
qed

lemma ceiling_div:
  fixes b F :: nat
  assumes "0 < b"
  shows "F div b + (if 0 < F \<and> F mod b \<noteq> 0 then 1 else 0) = (F + b - 1) div b"
proof -
  define q r where "q = F div b" and "r = F mod b"
  have F: "F = r + b * q"
    by (simp add: q_def r_def)
  have r: "r < b"
    using assms by (simp add: r_def)
  show ?thesis
  proof (cases "r = 0")
    case True
    have "F + b - 1 = (b - 1) + b * q"
      using assms by (simp add: F True)
    then have "(F + b - 1) div b = q + (b - 1) div b"
      using assms by (simp only: div_mult_self2)
    with True assms show ?thesis
      by (simp add: q_def r_def)
  next
    case False
    then have "F + b - 1 = (r - 1) + b * (q + 1)"
      by (simp add: F algebra_simps)
    then have "(F + b - 1) div b = (q + 1) + (r - 1) div b"
      using assms by (simp only: div_mult_self2)
    moreover have "(r - 1) div b = 0"
      using r by simp
    moreover have "0 < F"
      using False by (simp add: F)
    ultimately show ?thesis
      using False by (simp add: q_def r_def)
  qed
qed

lemma loop_pass:
  assumes "stream_loop w g msgs h cs None n lst acc = (ys, es, r)"
    and "\<forall>req a. Fetch req a \<in> set es \<longrightarrow> validation_target (body req) = Response
           \<longrightarrow> (\<exists>r'. read_reply a = Inr r' \<and> action r' = Passthrough)"
  shows "\<exists>pre. es = pre @ [Next None]
           \<and> check_positions n pre
               = filter (\<lambda>j. js_rem (int j) (bound_chunkBatchSize g) = Some 0)
                   [Suc n..<Suc (n + length cs)]"
  using assms
proof (induction cs arbitrary: h n lst acc ys es)
  case Nil
  then show ?case
    by auto
next
  case (Cons c cs)
  from Cons.prems(1) show ?case
  proof (cases rule: stream_loop_Cons_cases)
    case (skip ys' es')
    from Cons.prems(2) skip(4)
    have "\<forall>req a. Fetch req a \<in> set es' \<longrightarrow> validation_target (body req) = Response
           \<longrightarrow> (\<exists>r'. read_reply a = Inr r' \<and> action r' = Passthrough)"
      by simp
    from Cons.IH [OF skip(2) this] obtain pre where
      "es' = pre @ [Next None]"
      "check_positions (Suc n) pre
         = filter (\<lambda>j. js_rem (int j) (bound_chunkBatchSize g) = Some 0)
             [Suc (Suc n)..<Suc (Suc n + length cs)]"
      by blast
    with skip(1,4) show ?thesis
      by (intro exI [of _ "Next (Some c) # pre"]) (simp add: upt_step del: upt_Suc)
  next
    case (pass ys' es' r' a)
    from Cons.prems(2) pass(7)
    have "\<forall>req a. Fetch req a \<in> set es' \<longrightarrow> validation_target (body req) = Response
           \<longrightarrow> (\<exists>r'. read_reply a = Inr r' \<and> action r' = Passthrough)"
      by simp
    from Cons.IH [OF pass(5) this] obtain pre where
      "es' = pre @ [Next None]"
      "check_positions (Suc n) pre
         = filter (\<lambda>j. js_rem (int j) (bound_chunkBatchSize g) = Some 0)
             [Suc (Suc n)..<Suc (Suc n + length cs)]"
      by blast
    with pass(1,7) show ?thesis
      by (intro exI [of _ "Next (Some c)
            # Fetch (response_request w g msgs (acc @ content c)) a # pre"])
        (simp add: upt_step del: upt_Suc)
  next
    case (block r' a)
    with Cons.prems(2) show ?thesis
      by auto
  next
    case (fail e a)
    with Cons.prems(2) show ?thesis
      by auto
  qed
qed

lemma tail_check_eq:
  "tail_check w g msgs h (n, lst, acc) =
     (if lst \<noteq> None \<and> js_rem (int n) (bound_chunkBatchSize g) \<noteq> Some 0 then
        (case read_reply (fetch w h (response_request w g msgs acc)) of
           Inl e \<Rightarrow>
             ([], [Fetch (response_request w g msgs acc)
                     (fetch w h (response_request w g msgs acc))], Some e)
         | Inr r \<Rightarrow>
             (if action r \<noteq> Passthrough
              then [AIMessageChunk (substitute r RESPONSE_OVERRIDE)] else [],
              [Fetch (response_request w g msgs acc)
                 (fetch w h (response_request w g msgs acc))], None))
      else ([], [], None))"
  by (simp add: tail_check_def response_condition_eq AIMessage_def js_or_substitute
      split: sum.splits)

section \<open>The loop and the check after it\<close>

lemma stream_body_cases [consumes 1, case_names threw finished]:
  assumes "stream_body w g msgs h cs ending = (ys, es, err)"
  obtains
    e where "stream_loop w g msgs h cs ending 0 None [] = (ys, es, Inl e)" and "err = Some e"
  | ys1 es1 n lst acc zs es2 where
      "stream_loop w g msgs h cs ending 0 None [] = (ys1, es1, Inr (n, lst, acc))"
      and "tail_check w g msgs (h @ es1) (n, lst, acc) = (zs, es2, err)"
      and "ys = ys1 @ zs" and "es = es1 @ es2"
  using assms unfolding stream_body_def
  by (auto split: prod.splits sum.splits)

lemma tail_check_events:
  assumes "tail_check w g msgs h (n, lst, acc) = (zs, es, err)"
  shows "es = [] \<and> zs = [] \<and> err = None
           \<and> \<not> (lst \<noteq> None \<and> js_rem (int n) (bound_chunkBatchSize g) \<noteq> Some 0)
       \<or> es = [Fetch (response_request w g msgs acc) (fetch w h (response_request w g msgs acc))]
           \<and> lst \<noteq> None \<and> js_rem (int n) (bound_chunkBatchSize g) \<noteq> Some 0"
  using assms unfolding tail_check_eq
  by (auto split: if_splits sum.splits)

lemma body_fetches:
  assumes "stream_body w g msgs h cs ending = (ys, es, err)"
    and "es = pre @ Fetch req a # post"
  shows "req = response_request w g msgs (text_of (fragments_of pre))
       \<and> a = fetch w (h @ pre) req \<and> fragments_of pre \<noteq> []"
  using assms(1)
proof (cases rule: stream_body_cases)
  case (threw e)
  from loop_fetches [OF threw(1) assms(2)] show ?thesis
    by simp
next
  case (finished ys1 es1 n lst acc zs es2)
  from loop_state [OF finished(1)]
  have st: "acc = text_of (fragments_of es1)" "n = length (fragments_of es1)"
    "lst = (if fragments_of es1 = [] then None else Some (last (fragments_of es1)))"
    by simp_all
  from tail_check_events [OF finished(2)] show ?thesis
  proof
    assume "es2 = [] \<and> zs = [] \<and> err = None
           \<and> \<not> (lst \<noteq> None \<and> js_rem (int n) (bound_chunkBatchSize g) \<noteq> Some 0)"
    with finished(4) assms(2) have "es1 = pre @ Fetch req a # post"
      by simp
    from loop_fetches [OF finished(1) this] show ?thesis
      by simp
  next
    assume t: "es2 = [Fetch (response_request w g msgs acc)
                       (fetch w (h @ es1) (response_request w g msgs acc))]
           \<and> lst \<noteq> None \<and> js_rem (int n) (bound_chunkBatchSize g) \<noteq> Some 0"
    show ?thesis
    proof (cases post rule: rev_cases)
      case Nil
      with t finished(4) assms(2) have "pre = es1" "req = response_request w g msgs acc"
        "a = fetch w (h @ es1) (response_request w g msgs acc)"
        by simp_all
      with st t show ?thesis
        by (auto split: if_splits)
    next
      case (snoc post' x)
      with t finished(4) assms(2) have "es1 = pre @ Fetch req a # post'"
        by simp
      from loop_fetches [OF finished(1) this] show ?thesis
        by simp
    qed
  qed
qed

lemma body_end:
  assumes "stream_body w g msgs h cs ending = (ys, es, err)"
    and "es = pre @ Next None # post"
  shows "fragments_of pre = cs \<and> ending = None
       \<and> (post \<noteq> [] \<longleftrightarrow> cs \<noteq> [] \<and> \<not> bound_chunkBatchSize g dvd int (length cs))
       \<and> (post = []
          \<or> post = [Fetch (response_request w g msgs (text_of cs))
                       (fetch w (h @ pre @ [Next None]) (response_request w g msgs (text_of cs)))])"
  using assms(1)
proof (cases rule: stream_body_cases)
  case (threw e)
  from loop_end [OF threw(1) assms(2)] show ?thesis
    by simp
next
  case (finished ys1 es1 n lst acc zs es2)
  from tail_check_events [OF finished(2)] have "Next None \<notin> set es2"
    by auto
  with finished(4) assms(2) have "\<exists>post1. es1 = pre @ Next None # post1 \<and> post = post1 @ es2"
    by (auto simp: append_eq_append_conv2 append_eq_Cons_conv Cons_eq_append_conv)
  then obtain post1 where es1: "es1 = pre @ Next None # post1" and post: "post = post1 @ es2"
    by blast
  from loop_end [OF finished(1) es1]
  have e: "post1 = []" "fragments_of pre = cs" "ending = None" "n = length cs"
    "lst = (if cs = [] then None else Some (last cs))" "acc = text_of cs"
    by simp_all
  have d: "(js_rem (int (length cs)) (bound_chunkBatchSize g) = Some 0)
             = (bound_chunkBatchSize g dvd int (length cs))" if "cs \<noteq> []"
    using that by (simp add: js_rem_dvd)
  from tail_check_events [OF finished(2)] show ?thesis
    using e post es1 d by (auto split: if_splits)
qed

lemma body_pass:
  assumes "stream_body w g msgs h cs None = (ys, es, err)"
    and "\<forall>req a. Fetch req a \<in> set es \<longrightarrow> validation_target (body req) = Response
           \<longrightarrow> (\<exists>r'. read_reply a = Inr r' \<and> action r' = Passthrough)"
  shows "ys = cs \<and> err = None
       \<and> (\<exists>pre. es = pre @ [Next None] @ drop (Suc (length pre)) es
             \<and> check_positions 0 pre
                 = filter (\<lambda>j. js_rem (int j) (bound_chunkBatchSize g) = Some 0)
                     [Suc 0..<Suc (length cs)])"
  using assms(1)
proof (cases rule: stream_body_cases)
  case (threw e)
  from assms(2) have "\<forall>req a. Fetch req a \<in> set es \<longrightarrow> validation_target (body req) = Response
           \<longrightarrow> (\<exists>r'. read_reply a = Inr r' \<and> action r' = Passthrough)" .
  from loop_pass [OF threw(1) this] obtain pre where "es = pre @ [Next None]"
    by blast
  then have "es = pre @ Next None # []" by simp
  from loop_end [OF threw(1) this] show ?thesis
    by simp
next
  case (finished ys1 es1 n lst acc zs es2)
  from assms(2) finished(4)
  have "\<forall>req a. Fetch req a \<in> set es1 \<longrightarrow> validation_target (body req) = Response
           \<longrightarrow> (\<exists>r'. read_reply a = Inr r' \<and> action r' = Passthrough)"
    by simp
  from loop_pass [OF finished(1) this] obtain pre where
    pre: "es1 = pre @ [Next None]"
    "check_positions 0 pre
       = filter (\<lambda>j. js_rem (int j) (bound_chunkBatchSize g) = Some 0)
           [Suc 0..<Suc (0 + length cs)]"
    by blast
  then have "es1 = pre @ Next None # []" by simp
  from loop_end [OF finished(1) this] have ys1: "ys1 = cs"
    by simp
  have z: "zs = [] \<and> err = None"
  proof (cases "es2 = []")
    case True
    with tail_check_events [OF finished(2)] show ?thesis
      by auto
  next
    case False
    with tail_check_events [OF finished(2)]
    have t: "es2 = [Fetch (response_request w g msgs acc)
                      (fetch w (h @ es1) (response_request w g msgs acc))]"
      "lst \<noteq> None \<and> js_rem (int n) (bound_chunkBatchSize g) \<noteq> Some 0"
      by auto
    with assms(2) finished(4) obtain r' where
      "read_reply (fetch w (h @ es1) (response_request w g msgs acc)) = Inr r'"
      "action r' = Passthrough"
      by auto
    with finished(2) t(2) show ?thesis
      unfolding tail_check_eq by simp
  qed
  show ?thesis
    using ys1 z finished(3,4) pre
    by (auto intro!: exI [of _ pre])
qed

lemma body_block:
  assumes "stream_body w g msgs h cs ending = (ys, es, err)"
    and "es = pre @ Fetch req a # post"
    and "read_reply a = Inr rr"
    and "action rr \<noteq> Passthrough"
  shows "err = None \<and> ys \<noteq> []
       \<and> last ys = AIMessageChunk (substitute rr RESPONSE_OVERRIDE)
       \<and> (js_rem (int (length (fragments_of pre))) (bound_chunkBatchSize g) = Some 0
          \<longrightarrow> post = [Return]
              \<and> ys = butlast (fragments_of pre)
                      @ [AIMessageChunk (substitute rr RESPONSE_OVERRIDE)]
              \<and> fragments_of pre = take (length (fragments_of pre)) cs)"
  using assms(1)
proof (cases rule: stream_body_cases)
  case (threw e)
  from loop_block [OF threw(1) assms(2,3,4)] show ?thesis
    by simp
next
  case (finished ys1 es1 n lst acc zs es2)
  from loop_state [OF finished(1)]
  have st: "acc = text_of (fragments_of es1)" "n = length (fragments_of es1)"
    by simp_all
  have in_loop: ?thesis if es1: "es1 = pre @ Fetch req a # post'" and post: "post = post' @ es2"
    for post'
  proof -
    from loop_block [OF finished(1) es1 assms(3,4)]
    have b: "ys1 = butlast (fragments_of pre)
                   @ [AIMessageChunk (substitute rr RESPONSE_OVERRIDE)]" "post' = [Return]"
      by simp_all
    from loop_fetches [OF finished(1) es1]
    have f: "js_rem (int (length (fragments_of pre))) (bound_chunkBatchSize g) = Some 0"
      "fragments_of pre = take (length (fragments_of pre)) cs"
      by simp_all
    from st(2) es1 b(2) have "n = length (fragments_of pre)"
      by simp
    with f(1) finished(2) have "zs = []" "es2 = []" "err = None"
      unfolding tail_check_eq by simp_all
    with b f post finished(3) show ?thesis
      by simp
  qed
  from tail_check_events [OF finished(2)] show ?thesis
  proof
    assume "es2 = [] \<and> zs = [] \<and> err = None
           \<and> \<not> (lst \<noteq> None \<and> js_rem (int n) (bound_chunkBatchSize g) \<noteq> Some 0)"
    with finished(4) assms(2) show ?thesis
      by (intro in_loop [of post]) simp_all
  next
    assume t: "es2 = [Fetch (response_request w g msgs acc)
                       (fetch w (h @ es1) (response_request w g msgs acc))]
           \<and> lst \<noteq> None \<and> js_rem (int n) (bound_chunkBatchSize g) \<noteq> Some 0"
    show ?thesis
    proof (cases post rule: rev_cases)
      case Nil
      with t finished(4) assms(2) have p: "pre = es1"
        "a = fetch w (h @ es1) (response_request w g msgs acc)"
        by simp_all
      with finished(2) t assms(3,4)
      have "zs = [AIMessageChunk (substitute rr RESPONSE_OVERRIDE)]" "err = None"
        unfolding tail_check_eq by simp_all
      with finished(3) t st(2) p(1) show ?thesis
        by simp
    next
      case (snoc post' x)
      with t finished(4) assms(2) show ?thesis
        by (intro in_loop [of post']) simp_all
    qed
  qed
qed

text \<open>When every check made before the end of the stream passes, the end is reached.\<close>

lemma loop_no_end_before_fetch:
  assumes "stream_loop w g msgs h cs ending n lst acc = (ys, es, r)"
    and "es = pre @ Fetch req a # post"
  shows "Next None \<notin> set pre"
proof
  assume "Next None \<in> set pre"
  then obtain p1 p2 where "pre = p1 @ Next None # p2"
    by (auto dest: split_list)
  with assms(2) have "es = p1 @ Next None # (p2 @ Fetch req a # post)"
    by simp
  from loop_end [OF assms(1) this] show False
    by simp
qed

lemma body_reaches_end:
  assumes "stream_body w g msgs h cs None = (ys, es, err)"
    and "\<forall>pre req a post. es = pre @ Fetch req a # post \<and> Next None \<notin> set pre
           \<longrightarrow> (\<exists>r'. read_reply a = Inr r' \<and> action r' = Passthrough)"
  shows "\<exists>pre post. es = pre @ Next None # post
           \<and> check_positions 0 pre
               = filter (\<lambda>j. js_rem (int j) (bound_chunkBatchSize g) = Some 0)
                   [Suc 0..<Suc (length cs)]"
proof -
  have loop: "\<exists>pre. es1 = pre @ [Next None]
           \<and> check_positions 0 pre
               = filter (\<lambda>j. js_rem (int j) (bound_chunkBatchSize g) = Some 0)
                   [Suc 0..<Suc (length cs)]"
    if run: "stream_loop w g msgs h cs None 0 None [] = (ys1, es1, r)"
      and sub: "es = es1 @ es2"
    for ys1 es1 r es2
  proof -
    have "\<exists>r'. read_reply a = Inr r' \<and> action r' = Passthrough"
      if "Fetch req a \<in> set es1" for req a
    proof -
      from that obtain p q where es1: "es1 = p @ Fetch req a # q"
        by (auto dest: split_list)
      from loop_no_end_before_fetch [OF run es1] have "Next None \<notin> set p" .
      moreover from es1 sub have "es = p @ Fetch req a # (q @ es2)"
        by simp
      ultimately show ?thesis
        using assms(2) by blast
    qed
    then have "\<forall>req a. Fetch req a \<in> set es1 \<longrightarrow> validation_target (body req) = Response
           \<longrightarrow> (\<exists>r'. read_reply a = Inr r' \<and> action r' = Passthrough)"
      by blast
    from loop_pass [OF run this] show ?thesis
      by simp
  qed
  from assms(1) show ?thesis
  proof (cases rule: stream_body_cases)
    case (threw e)
    from loop [OF threw(1), of "[]"] obtain pre where "es = pre @ Next None # []"
      by auto
    from loop_end [OF threw(1) this] show ?thesis
      by simp
  next
    case (finished ys1 es1 n lst acc zs es2)
    from loop [OF finished(1) finished(4)] obtain pre where
      "es1 = pre @ [Next None]"
      "check_positions 0 pre
               = filter (\<lambda>j. js_rem (int j) (bound_chunkBatchSize g) = Some 0)
                   [Suc 0..<Suc (length cs)]"
      by blast
    with finished(4) show ?thesis
      by (intro exI [of _ pre] exI [of _ es2]) simp
  qed
qed

section \<open>The guarded streaming call\<close>

lemma guarded_stream_open:
  assumes "extractMessages w input = Inr msgs"
    and "read_reply (fetch w h (prompt_request w g msgs)) = Inr r"
    and "action r = Passthrough"
    and "model_stream w
           (h @ [Fetch (prompt_request w g msgs) (fetch w h (prompt_request w g msgs))])
           (target g) input options = Inr (cs, ending)"
    and "guarded_stream w h g input options = (ys, es, err)"
  shows "\<exists>es3. es = Fetch (prompt_request w g msgs) (fetch w h (prompt_request w g msgs))
                   # CallStream (target g) input options # es3
           \<and> stream_body w g msgs
                 (h @ [Fetch (prompt_request w g msgs) (fetch w h (prompt_request w g msgs)),
                       CallStream (target g) input options]) cs ending = (ys, es3, err)"
  using assms
  by (auto simp: guarded_stream_def prompt_condition_eq Let_def split: prod.splits)

lemma guarded_stream_cases [consumes 1, case_names no_stream streamed]:
  assumes "guarded_stream w h g input options = (ys, es, err)"
  obtains
    "\<forall>req a. Fetch req a \<in> set es \<longrightarrow> validation_target (body req) = Prompt"
      and "Next None \<notin> set es"
  | msgs a cs ending es3 where
      "es = Fetch (prompt_request w g msgs) a # CallStream (target g) input options # es3"
      and "stream_body w g msgs
             (h @ [Fetch (prompt_request w g msgs) a, CallStream (target g) input options])
             cs ending = (ys, es3, err)"
  using assms unfolding guarded_stream_def prompt_condition_eq Let_def
  by (auto split: sum.splits prod.splits if_splits)

lemma after_opening:
  assumes "Fetch q a # CallStream m i opt # es3 = pre @ x # post"
    and "x \<noteq> Fetch q a" and "x \<noteq> CallStream m i opt"
  shows "\<exists>pre'. pre = Fetch q a # CallStream m i opt # pre' \<and> es3 = pre' @ x # post"
  using assms by (auto simp: Cons_eq_append_conv)

text \<open>
  C9. In every run of the guarded streaming call, each response check (at a batch
  boundary or after the loop) is sent the concatenation of the contents of all the
  fragments received before it, from the first one. Once the underlying stream has
  ended normally, a check follows if and only if at least one fragment was received and
  the batch size does not divide the number of fragments received; that check is the
  last event, and its text is the whole accumulated text. And these checks are made:
  when the prompt passes, the underlying stream \<open>cs\<close> ends normally and every response
  check made before its end returns passthrough, the run reads the stream to its end,
  makes one check at each fragment count whose remainder by the batch size is zero,
  and after the end sends the check on the text of all of \<open>cs\<close> exactly when \<open>cs\<close> is
  not empty and the batch size does not divide its length.
\<close>

theorem checks_cover_whole_text:
  assumes "guarded_stream w h g input options = (ys, es, err)"
  shows "(\<forall>pre req a post.
            es = pre @ Fetch req a # post \<and> validation_target (body req) = Response
            \<longrightarrow> response (body req) = text_of (fragments_of pre))
       \<and> (\<forall>pre post.
            es = pre @ Next None # post
            \<longrightarrow> (post \<noteq> [] \<longleftrightarrow>
                   fragments_of pre \<noteq> []
                   \<and> \<not> bound_chunkBatchSize g dvd int (length (fragments_of pre)))
                \<and> (post = []
                   \<or> (\<exists>req a. post = [Fetch req a]
                        \<and> validation_target (body req) = Response
                        \<and> response (body req) = text_of (fragments_of pre))))
       \<and> (\<forall>msgs r cs.
            extractMessages w input = Inr msgs
            \<and> read_reply (fetch w h (prompt_request w g msgs)) = Inr r
            \<and> action r = Passthrough
            \<and> model_stream w
                 (h @ [Fetch (prompt_request w g msgs) (fetch w h (prompt_request w g msgs))])
                 (target g) input options = Inr (cs, None)
            \<and> (\<forall>pre req a post.
                  es = pre @ Fetch req a # post \<and> validation_target (body req) = Response
                  \<and> Next None \<notin> set pre
                  \<longrightarrow> (\<exists>r'. read_reply a = Inr r' \<and> action r' = Passthrough))
            \<longrightarrow> (\<exists>pre post.
                   es = pre @ Next None # post
                   \<and> fragments_of pre = cs
                   \<and> check_positions 0 pre
                       = filter (\<lambda>n. js_rem (int n) (bound_chunkBatchSize g) = Some 0)
                           [1..<Suc (length cs)]
                   \<and> post
                       = (if cs \<noteq> [] \<and> \<not> bound_chunkBatchSize g dvd int (length cs)
                          then [Fetch (response_request w g msgs (text_of cs))
                                  (fetch w (h @ pre @ [Next None])
                                     (response_request w g msgs (text_of cs)))]
                          else [])))"
proof -
  have 1: "response (body req) = text_of (fragments_of pre)"
    if "es = pre @ Fetch req a # post" "validation_target (body req) = Response"
    for pre req a post
    using assms
  proof (cases rule: guarded_stream_cases)
    case no_stream
    from that(1) have "Fetch req a \<in> set es"
      by simp
    with no_stream(1) have "validation_target (body req) = Prompt"
      by blast
    with that(2) show ?thesis
      by simp
  next
    case (streamed msgs a0 cs ending es3)
    from that(2) have "Fetch req a \<noteq> Fetch (prompt_request w g msgs) a0"
      by auto
    with after_opening [OF that(1) [unfolded streamed(1)]] obtain pre' where
      pre: "pre = Fetch (prompt_request w g msgs) a0 # CallStream (target g) input options # pre'"
      and es3: "es3 = pre' @ Fetch req a # post"
      by auto
    from body_fetches [OF streamed(2) es3] show ?thesis
      by (simp add: pre)
  qed
  have 2: "(post \<noteq> [] \<longleftrightarrow>
                   fragments_of pre \<noteq> []
                   \<and> \<not> bound_chunkBatchSize g dvd int (length (fragments_of pre)))
                \<and> (post = []
                   \<or> (\<exists>req a. post = [Fetch req a]
                        \<and> validation_target (body req) = Response
                        \<and> response (body req) = text_of (fragments_of pre)))"
    if "es = pre @ Next None # post" for pre post
    using assms
  proof (cases rule: guarded_stream_cases)
    case no_stream
    with that show ?thesis
      by simp
  next
    case (streamed msgs a0 cs ending es3)
    from after_opening [OF that [unfolded streamed(1)]] obtain pre' where
      pre: "pre = Fetch (prompt_request w g msgs) a0 # CallStream (target g) input options # pre'"
      and es3: "es3 = pre' @ Next None # post"
      by auto
    from body_end [OF streamed(2) es3] show ?thesis
      by (auto simp: pre)
  qed
  have 3: "\<exists>pre post.
                   es = pre @ Next None # post
                   \<and> fragments_of pre = cs
                   \<and> check_positions 0 pre
                       = filter (\<lambda>n. js_rem (int n) (bound_chunkBatchSize g) = Some 0)
                           [1..<Suc (length cs)]
                   \<and> post
                       = (if cs \<noteq> [] \<and> \<not> bound_chunkBatchSize g dvd int (length cs)
                          then [Fetch (response_request w g msgs (text_of cs))
                                  (fetch w (h @ pre @ [Next None])
                                     (response_request w g msgs (text_of cs)))]
                          else [])"
    if x: "extractMessages w input = Inr msgs"
      and p: "read_reply (fetch w h (prompt_request w g msgs)) = Inr r"
      and a: "action r = Passthrough"
      and m: "model_stream w
                 (h @ [Fetch (prompt_request w g msgs) (fetch w h (prompt_request w g msgs))])
                 (target g) input options = Inr (cs, None)"
      and c: "\<forall>pre req a post.
                  es = pre @ Fetch req a # post \<and> validation_target (body req) = Response
                  \<and> Next None \<notin> set pre
                  \<longrightarrow> (\<exists>r'. read_reply a = Inr r' \<and> action r' = Passthrough)"
    for msgs r cs
  proof -
    let ?F0 = "Fetch (prompt_request w g msgs) (fetch w h (prompt_request w g msgs))"
    let ?C0 = "CallStream (target g) input options"
    from guarded_stream_open [OF x p a m assms] obtain es3 where
      es: "es = ?F0 # ?C0 # es3"
      and body: "stream_body w g msgs (h @ [?F0, ?C0]) cs None = (ys, es3, err)"
      by blast
    have "\<exists>r'. read_reply a = Inr r' \<and> action r' = Passthrough"
      if es3: "es3 = pre @ Fetch req a # post" and n: "Next None \<notin> set pre"
      for pre req a post
    proof -
      from body_fetches [OF body es3] have "validation_target (body req) = Response"
        by simp
      moreover from es es3 have "es = (?F0 # ?C0 # pre) @ Fetch req a # post"
        by simp
      moreover from n have "Next None \<notin> set (?F0 # ?C0 # pre)"
        by simp
      ultimately show ?thesis
        using c by blast
    qed
    then have "\<forall>pre req a post. es3 = pre @ Fetch req a # post \<and> Next None \<notin> set pre
           \<longrightarrow> (\<exists>r'. read_reply a = Inr r' \<and> action r' = Passthrough)"
      by blast
    from body_reaches_end [OF body this] obtain pre post where
      es3: "es3 = pre @ Next None # post"
      and pos: "check_positions 0 pre
               = filter (\<lambda>j. js_rem (int j) (bound_chunkBatchSize g) = Some 0)
                   [Suc 0..<Suc (length cs)]"
      by blast
    from body_end [OF body es3]
    have fr: "fragments_of pre = cs"
      and tail: "post \<noteq> [] \<longleftrightarrow> cs \<noteq> [] \<and> \<not> bound_chunkBatchSize g dvd int (length cs)"
      and shape: "post = []
          \<or> post = [Fetch (response_request w g msgs (text_of cs))
                       (fetch w ((h @ [?F0, ?C0]) @ pre @ [Next None])
                          (response_request w g msgs (text_of cs)))]"
      by auto
    have "es = (?F0 # ?C0 # pre) @ Next None # post"
      by (simp add: es es3)
    moreover have "fragments_of (?F0 # ?C0 # pre) = cs"
      by (simp add: fr)
    moreover have "check_positions 0 (?F0 # ?C0 # pre)
                       = filter (\<lambda>n. js_rem (int n) (bound_chunkBatchSize g) = Some 0)
                           [1..<Suc (length cs)]"
      by (simp add: pos)
    moreover have "post
                       = (if cs \<noteq> [] \<and> \<not> bound_chunkBatchSize g dvd int (length cs)
                          then [Fetch (response_request w g msgs (text_of cs))
                                  (fetch w (h @ (?F0 # ?C0 # pre) @ [Next None])
                                     (response_request w g msgs (text_of cs)))]
                          else [])"
      using tail shape by auto
    ultimately show ?thesis
      by blast
  qed
  from 1 2 3 show ?thesis
    by blast
qed

text \<open>
  C2. Take a positive batch size \<open>b\<close>, a prompt that passes, and an underlying stream of
  the fragments \<open>cs\<close> that ends normally. If every response check of the run returns
  passthrough, the guarded stream yields exactly \<open>cs\<close> and ends; it makes exactly
  \<open>\<lceil>length cs / b\<rceil>\<close> response checks; before the end of the underlying stream the
  checks are at the fragment counts that are multiples of \<open>b\<close>, one at each; and after
  the end there is one more check if and only if \<open>cs\<close> is not empty and \<open>b\<close> does not
  divide its length.
\<close>

theorem passing_stream_checks:
  assumes "extractMessages w input = Inr msgs"
    and "read_reply (fetch w h (prompt_request w g msgs)) = Inr r"
    and "action r = Passthrough"
    and "model_stream w
           (h @ [Fetch (prompt_request w g msgs) (fetch w h (prompt_request w g msgs))])
           (target g) input options = Inr (cs, None)"
    and "bound_chunkBatchSize g = int b"
    and "0 < b"
    and "guarded_stream w h g input options = (ys, es, err)"
    and "\<forall>req a. Fetch req a \<in> set es \<longrightarrow> validation_target (body req) = Response
           \<longrightarrow> (\<exists>r'. read_reply a = Inr r' \<and> action r' = Passthrough)"
  shows "ys = cs \<and> err = None
       \<and> length (filter is_response_check es) = (length cs + b - 1) div b
       \<and> (\<exists>pre post.
            es = pre @ Next None # post
            \<and> fragments_of pre = cs
            \<and> check_positions 0 pre = filter (\<lambda>j. j mod b = 0) [1..<Suc (length cs)]
            \<and> length (filter is_response_check post)
                = (if 0 < length cs \<and> length cs mod b \<noteq> 0 then 1 else 0))"
proof -
  let ?F0 = "Fetch (prompt_request w g msgs) (fetch w h (prompt_request w g msgs))"
  let ?C0 = "CallStream (target g) input options"
  from guarded_stream_open [OF assms(1,2,3,4,7)] obtain es3 where
    es: "es = ?F0 # ?C0 # es3"
    and body: "stream_body w g msgs (h @ [?F0, ?C0]) cs None = (ys, es3, err)"
    by blast
  from assms(8) es
  have "\<forall>req a. Fetch req a \<in> set es3 \<longrightarrow> validation_target (body req) = Response
           \<longrightarrow> (\<exists>r'. read_reply a = Inr r' \<and> action r' = Passthrough)"
    by simp
  from body_pass [OF body this] obtain pre where
    ys: "ys = cs" "err = None"
    and es3: "es3 = pre @ [Next None] @ drop (Suc (length pre)) es3"
    and pos: "check_positions 0 pre
                 = filter (\<lambda>j. js_rem (int j) (bound_chunkBatchSize g) = Some 0)
                     [Suc 0..<Suc (length cs)]"
    by blast
  define post where "post = drop (Suc (length pre)) es3"
  from es3 have es3': "es3 = pre @ Next None # post"
    by (simp add: post_def)
  from body_end [OF body es3']
  have fr: "fragments_of pre = cs"
    and tail: "post \<noteq> [] \<longleftrightarrow> cs \<noteq> [] \<and> \<not> bound_chunkBatchSize g dvd int (length cs)"
    and shape: "post = [] \<or> (\<exists>a. post = [Fetch (response_request w g msgs (text_of cs)) a])"
    by auto
  have pos': "check_positions 0 pre = filter (\<lambda>j. j mod b = 0) [1..<Suc (length cs)]"
    using pos assms(5,6) by (simp add: js_rem_nat)
  have dvd: "bound_chunkBatchSize g dvd int (length cs) \<longleftrightarrow> length cs mod b = 0"
    using assms(5) by (simp add: mod_eq_0_iff_dvd)
  have npost: "length (filter is_response_check post)
                = (if 0 < length cs \<and> length cs mod b \<noteq> 0 then 1 else 0)"
    using tail shape dvd by auto
  have "length (filter is_response_check es)
          = length (check_positions 0 pre) + length (filter is_response_check post)"
    by (simp add: es es3' length_check_positions)
  also have "\<dots> = length cs div b + (if 0 < length cs \<and> length cs mod b \<noteq> 0 then 1 else 0)"
    using count_multiples [OF assms(6), of "length cs"] by (simp add: pos' npost)
  also have "\<dots> = (length cs + b - 1) div b"
    by (rule ceiling_div [OF assms(6)])
  finally have total: "length (filter is_response_check es) = (length cs + b - 1) div b" .
  have "es = (?F0 # ?C0 # pre) @ Next None # post"
    "fragments_of (?F0 # ?C0 # pre) = cs"
    "check_positions 0 (?F0 # ?C0 # pre) = filter (\<lambda>j. j mod b = 0) [1..<Suc (length cs)]"
    by (simp_all add: es es3' fr pos')
  with ys total npost show ?thesis
    by blast
qed

text \<open>
  C3, as amended. Take a positive batch size \<open>b\<close>, a prompt that passes and an opened
  underlying stream \<open>cs\<close>. If the response check made when \<open>k * b\<close> fragments have been
  received returns block, modify or rephrase, the guarded stream yields the first
  \<open>k * b - 1\<close> fragments (the fragment that completed the batch is withheld), then one
  override chunk, and ends; exactly \<open>k * b\<close> fragments were taken from the underlying
  stream, and after the check the only event is the \<^verbatim>\<open>return()\<close> that closes it: no
  further fragment, no check after the loop.
\<close>

theorem blocked_batch_ends_stream:
  assumes "extractMessages w input = Inr msgs"
    and "read_reply (fetch w h (prompt_request w g msgs)) = Inr r"
    and "action r = Passthrough"
    and "model_stream w
           (h @ [Fetch (prompt_request w g msgs) (fetch w h (prompt_request w g msgs))])
           (target g) input options = Inr (cs, ending)"
    and "bound_chunkBatchSize g = int b"
    and "0 < b"
    and "guarded_stream w h g input options = (ys, es, err)"
    and "es = pre @ Fetch req a # post"
    and "validation_target (body req) = Response"
    and "length (fragments_of pre) = k * b"
    and "read_reply a = Inr rr"
    and "action rr = Block \<or> action rr = Modify \<or> action rr = Rephrase"
  shows "ys = take (k * b - 1) cs @ [AIMessageChunk (substitute rr RESPONSE_OVERRIDE)]
       \<and> err = None
       \<and> post = [Return]
       \<and> fragments_of es = take (k * b) cs
       \<and> 0 < k \<and> k * b \<le> length cs"
proof -
  let ?F0 = "Fetch (prompt_request w g msgs) (fetch w h (prompt_request w g msgs))"
  let ?C0 = "CallStream (target g) input options"
  from guarded_stream_open [OF assms(1,2,3,4,7)] obtain es3 where
    es: "es = ?F0 # ?C0 # es3"
    and body: "stream_body w g msgs (h @ [?F0, ?C0]) cs ending = (ys, es3, err)"
    by blast
  from assms(9) have "Fetch req a \<noteq> ?F0"
    by auto
  with after_opening [OF assms(8) [unfolded es]] obtain pre' where
    pre: "pre = ?F0 # ?C0 # pre'" and es3: "es3 = pre' @ Fetch req a # post"
    by auto
  from assms(10) pre have len: "length (fragments_of pre') = k * b"
    by simp
  from body_fetches [OF body es3] have ne: "fragments_of pre' \<noteq> []"
    by simp
  with len have k: "0 < k"
    by (cases k) auto
  from assms(12) have blk: "action rr \<noteq> Passthrough"
    by auto
  have "js_rem (int (length (fragments_of pre'))) (bound_chunkBatchSize g) = Some 0"
    using assms(5,6) by (simp add: len js_rem_nat del: of_nat_mult)
  with body_block [OF body es3 assms(11) blk]
  have b: "err = None" "post = [Return]"
    "ys = butlast (fragments_of pre') @ [AIMessageChunk (substitute rr RESPONSE_OVERRIDE)]"
    "fragments_of pre' = take (k * b) cs"
    by (simp_all add: len)
  from b(4) len have le: "k * b \<le> length cs"
    by (metis length_take min_def nat_le_linear take_all)
  then have "butlast (take (k * b) cs) = take (k * b - 1) cs"
    by (simp add: butlast_take)
  with b le k show ?thesis
    by (simp add: es es3)
qed

section \<open>Blocked content and the empty revision\<close>

text \<open>
  C10. Whenever a check blocks (the prompt check or a response check, in the single-turn
  call or in the stream, at a batch boundary or after the loop), the content that stands
  in for the blocked content is the check's revised text only if that is a string that
  is not empty; when the revised text is the empty string, it is the fixed default
  override string of the site: the prompt override for a prompt check, the response
  override for a response check.
\<close>

theorem empty_revision_gives_default:
  assumes "action rr = Block \<or> action rr = Modify \<or> action rr = Rephrase"
    and "extractMessages w input = Inr msgs"
  shows "(revised_response rr = Some []
            \<longrightarrow> substitute rr PROMPT_OVERRIDE = PROMPT_OVERRIDE
                \<and> substitute rr RESPONSE_OVERRIDE = RESPONSE_OVERRIDE)
       \<and> (\<forall>t. revised_response rr = Some t \<and> t \<noteq> []
            \<longrightarrow> substitute rr PROMPT_OVERRIDE = t \<and> substitute rr RESPONSE_OVERRIDE = t)
       \<and> (read_reply (fetch w h (prompt_request w g msgs)) = Inr rr
            \<longrightarrow> fst (guarded_invoke w h g input options)
                  = Inr (AIMessage (substitute rr PROMPT_OVERRIDE))
                \<and> fst (guarded_stream w h g input options)
                  = [AIMessageChunk (substitute rr PROMPT_OVERRIDE)])
       \<and> (\<forall>p x.
             read_reply (fetch w h (prompt_request w g msgs)) = Inr p
             \<and> action p = Passthrough
             \<and> model_invoke w
                 (h @ [Fetch (prompt_request w g msgs) (fetch w h (prompt_request w g msgs))])
                 (target g) input options = Inr x
             \<and> read_reply (fetch w
                   (h @ [Fetch (prompt_request w g msgs) (fetch w h (prompt_request w g msgs)),
                         CallInvoke (target g) input options])
                   (response_request w g msgs (content x))) = Inr rr
            \<longrightarrow> fst (guarded_invoke w h g input options)
                  = Inr (AIMessage (substitute rr RESPONSE_OVERRIDE)))
       \<and> (\<forall>ys es err pre req a post.
             guarded_stream w h g input options = (ys, es, err)
             \<and> es = pre @ Fetch req a # post
             \<and> validation_target (body req) = Response
             \<and> read_reply a = Inr rr
            \<longrightarrow> err = None \<and> ys \<noteq> []
                \<and> last ys = AIMessageChunk (substitute rr RESPONSE_OVERRIDE))"
proof -
  from assms(1) have blk: "action rr \<noteq> Passthrough"
    by auto
  have s: "revised_response rr = Some [] \<longrightarrow> substitute rr d = d"
    "\<forall>t. revised_response rr = Some t \<and> t \<noteq> [] \<longrightarrow> substitute rr d = t" for d
    by (simp_all add: substitute_def)
  have p: "fst (guarded_invoke w h g input options)
                  = Inr (AIMessage (substitute rr PROMPT_OVERRIDE))
                \<and> fst (guarded_stream w h g input options)
                  = [AIMessageChunk (substitute rr PROMPT_OVERRIDE)]"
    if "read_reply (fetch w h (prompt_request w g msgs)) = Inr rr"
    using that assms(2) blk
    by (simp add: guarded_invoke_def guarded_stream_def prompt_condition_eq js_or_substitute)
  have i: "fst (guarded_invoke w h g input options)
                  = Inr (AIMessage (substitute rr RESPONSE_OVERRIDE))"
    if "read_reply (fetch w h (prompt_request w g msgs)) = Inr p"
      "action p = Passthrough"
      "model_invoke w
                 (h @ [Fetch (prompt_request w g msgs) (fetch w h (prompt_request w g msgs))])
                 (target g) input options = Inr x"
      "read_reply (fetch w
                   (h @ [Fetch (prompt_request w g msgs) (fetch w h (prompt_request w g msgs)),
                         CallInvoke (target g) input options])
                   (response_request w g msgs (content x))) = Inr rr"
    for p x
    using that assms(2) blk
    by (simp add: guarded_invoke_def prompt_condition_eq response_condition_eq
        js_or_substitute Let_def)
  have st: "err = None \<and> ys \<noteq> []
                \<and> last ys = AIMessageChunk (substitute rr RESPONSE_OVERRIDE)"
    if run: "guarded_stream w h g input options = (ys, es, err)"
      and es: "es = pre @ Fetch req a # post"
      and tgt: "validation_target (body req) = Response"
      and rr: "read_reply a = Inr rr"
    for ys es err pre req a post
    using run
  proof (cases rule: guarded_stream_cases)
    case no_stream
    from es have "Fetch req a \<in> set es"
      by simp
    with no_stream(1) tgt show ?thesis
      by auto
  next
    case (streamed msgs' a0 cs ending es3)
    from tgt have "Fetch req a \<noteq> Fetch (prompt_request w g msgs') a0"
      by auto
    with after_opening [OF es [unfolded streamed(1)]] obtain pre' where
      "es3 = pre' @ Fetch req a # post"
      by auto
    from body_block [OF streamed(2) this rr blk] show ?thesis
      by simp
  qed
  from s [of PROMPT_OVERRIDE] s [of RESPONSE_OVERRIDE] p i st show ?thesis
    by blast
qed

section \<open>Concrete runs of the stream\<close>

lemma stub_guarded_fields:
  "target stub_guarded = 0" "bound_chunkBatchSize stub_guarded = 2"
  by (simp_all add: stub_guarded_def withGuardrails_def)

lemma stub_stream:
  "model_stream (stub_world service answer chunks) h m i opt = Inr (chunks, None)"
  by (simp add: stub_world_def)

lemma passing_run:
  "guarded_stream passing_world [] stub_guarded ''q'' None
     = (five_chunks,
        [Fetch (probe Prompt '''') (Inr (stub_reply ''passthrough'' None)),
         CallStream 0 ''q'' None,
         Next (Some (AIMessageChunk ''a'')),
         Next (Some (AIMessageChunk ''b'')),
         Fetch (probe Response ''ab'') (Inr (stub_reply ''passthrough'' None)),
         Next (Some (AIMessageChunk ''c'')),
         Next (Some (AIMessageChunk ''d'')),
         Fetch (probe Response ''abcd'') (Inr (stub_reply ''passthrough'' None)),
         Next (Some (AIMessageChunk ''e'')),
         Next None,
         Fetch (probe Response ''abcde'') (Inr (stub_reply ''passthrough'' None))],
        None)"
  by (simp add: guarded_stream_def stream_body_def passing_world_def five_chunks_def
      stub_extract prompt_condition_eq stub_fetch read_stub_reply stub_stream
      stub_guarded_fields stream_loop_Cons tail_check_eq stub_prompt_request
      stub_response_request js_rem_def AIMessageChunk_def probe_def
      del: stream_loop.simps(2))

lemma blocking_run:
  "guarded_stream blocking_world [] stub_guarded ''q'' None
     = ([AIMessageChunk ''a'', AIMessageChunk ''no''],
        [Fetch (probe Prompt '''') (Inr (stub_reply ''passthrough'' None)),
         CallStream 0 ''q'' None,
         Next (Some (AIMessageChunk ''a'')),
         Next (Some (AIMessageChunk ''b'')),
         Fetch (probe Response ''ab'') (Inr (stub_reply ''block'' (Some ''no''))),
         Return],
        None)"
  by (simp add: guarded_stream_def stream_body_def blocking_world_def on_response_def
      stub_extract prompt_condition_eq stub_fetch read_stub_reply stub_stream
      stub_guarded_fields stream_loop_Cons tail_check_eq stub_prompt_request
      stub_response_request js_rem_def AIMessageChunk_def probe_def substitute_def
      del: stream_loop.simps(2))

theorem passing_stream_checks_witness:
  "fst (guarded_stream passing_world [] stub_guarded ''q'' None) = five_chunks
   \<and> length (filter is_response_check
        (fst (snd (guarded_stream passing_world [] stub_guarded ''q'' None)))) = 3"
proof -
  let ?r = "\<lparr>action = Passthrough, revised_response = None, other_fields = []\<rparr>"
  let ?run = "guarded_stream passing_world [] stub_guarded ''q'' None"
  have 1: "extractMessages passing_world ''q'' = Inr [BaseMessage ''user'' ''q'']"
    by (simp add: passing_world_def stub_extract)
  have 2: "read_reply (fetch passing_world []
             (prompt_request passing_world stub_guarded [BaseMessage ''user'' ''q''])) = Inr ?r"
    by (simp add: passing_world_def stub_fetch read_stub_reply)
  have 3: "action ?r = Passthrough"
    by simp
  have 4: "model_stream passing_world
            ([] @ [Fetch (prompt_request passing_world stub_guarded [BaseMessage ''user'' ''q''])
                    (fetch passing_world []
                      (prompt_request passing_world stub_guarded [BaseMessage ''user'' ''q'']))])
            (target stub_guarded) ''q'' None = Inr (five_chunks, None)"
    by (simp add: passing_world_def stub_stream)
  have 5: "bound_chunkBatchSize stub_guarded = int 2"
    by (simp add: stub_guarded_fields)
  have 6: "(0::nat) < 2"
    by simp
  have 7: "?run = (fst ?run, fst (snd ?run), snd (snd ?run))"
    by simp
  have 8: "\<forall>req a. Fetch req a \<in> set (fst (snd ?run))
             \<longrightarrow> validation_target (body req) = Response
             \<longrightarrow> (\<exists>r'. read_reply a = Inr r' \<and> action r' = Passthrough)"
    by (auto simp: passing_run read_stub_reply)
  from passing_stream_checks [OF 1 2 3 4 5 6 7 8] show ?thesis
    by (simp add: five_chunks_def)
qed

theorem blocked_batch_ends_stream_witness:
  "fst (guarded_stream blocking_world [] stub_guarded ''q'' None)
     = [AIMessageChunk ''a'', AIMessageChunk ''no'']
   \<and> fragments_of (fst (snd (guarded_stream blocking_world [] stub_guarded ''q'' None)))
     = [AIMessageChunk ''a'', AIMessageChunk ''b'']"
proof -
  let ?r = "\<lparr>action = Passthrough, revised_response = None, other_fields = []\<rparr>"
  let ?rr = "\<lparr>action = Block, revised_response = Some ''no'', other_fields = []\<rparr>"
  let ?run = "guarded_stream blocking_world [] stub_guarded ''q'' None"
  let ?pre = "[Fetch (probe Prompt '''') (Inr (stub_reply ''passthrough'' None)),
         CallStream 0 ''q'' None,
         Next (Some (AIMessageChunk ''a'')),
         Next (Some (AIMessageChunk ''b''))]"
  have 1: "extractMessages blocking_world ''q'' = Inr [BaseMessage ''user'' ''q'']"
    by (simp add: blocking_world_def stub_extract)
  have 2: "read_reply (fetch blocking_world []
             (prompt_request blocking_world stub_guarded [BaseMessage ''user'' ''q''])) = Inr ?r"
    by (simp add: blocking_world_def stub_fetch read_stub_reply on_response_def
        stub_prompt_request)
  have 3: "action ?r = Passthrough"
    by simp
  have 4: "model_stream blocking_world
            ([] @ [Fetch (prompt_request blocking_world stub_guarded [BaseMessage ''user'' ''q''])
                    (fetch blocking_world []
                      (prompt_request blocking_world stub_guarded [BaseMessage ''user'' ''q'']))])
            (target stub_guarded) ''q'' None
            = Inr (map AIMessageChunk [''a'', ''b'', ''c''], None)"
    by (simp add: blocking_world_def stub_stream)
  have 5: "bound_chunkBatchSize stub_guarded = int 2"
    by (simp add: stub_guarded_fields)
  have 6: "(0::nat) < 2"
    by simp
  have 7: "?run = (fst ?run, fst (snd ?run), snd (snd ?run))"
    by simp
  have 8: "fst (snd ?run)
             = ?pre @ Fetch (probe Response ''ab'') (Inr (stub_reply ''block'' (Some ''no'')))
                 # [Return]"
    by (simp add: blocking_run)
  have 9: "validation_target (body (probe Response ''ab'')) = Response"
    by (simp add: probe_def)
  have 10: "length (fragments_of ?pre) = 1 * 2"
    by simp
  have 11: "read_reply (Inr (stub_reply ''block'' (Some ''no''))) = Inr ?rr"
    by (simp add: read_stub_reply)
  have 12: "action ?rr = Block \<or> action ?rr = Modify \<or> action ?rr = Rephrase"
    by simp
  from blocked_batch_ends_stream [OF 1 2 3 4 5 6 7 8 9 10 11 12] show ?thesis
    by (simp add: substitute_def)
qed

theorem blocked_batch_counterexample:
  "guarded_stream blocking_world [] stub_guarded ''q'' None
     = ([AIMessageChunk ''a'', AIMessageChunk ''no''],
        [Fetch (probe Prompt '''') (Inr (stub_reply ''passthrough'' None)),
         CallStream 0 ''q'' None,
         Next (Some (AIMessageChunk ''a'')),
         Next (Some (AIMessageChunk ''b'')),
         Fetch (probe Response ''ab'') (Inr (stub_reply ''block'' (Some ''no''))),
         Return],
        None)
   \<and> read_reply (Inr (stub_reply ''block'' (Some ''no'')))
       = Inr \<lparr>action = Block, revised_response = Some ''no'', other_fields = []\<rparr>
   \<and> fst (guarded_stream blocking_world [] stub_guarded ''q'' None)
       \<noteq> take (1 * 2) (map AIMessageChunk [''a'', ''b'', ''c'']) @ [AIMessageChunk ''no'']"
  by (simp add: blocking_run read_stub_reply AIMessageChunk_def)

lemma even_positions: "filter (\<lambda>n. js_rem (int n) 2 = Some 0) [1..<Suc 5] = [2, 4]"
  by code_simp

theorem checks_cover_whole_text_witness:
  "\<exists>pre. fst (snd (guarded_stream passing_world [] stub_guarded ''q'' None))
            = pre @ [Next None,
                     Fetch (probe Response ''abcde'') (Inr (stub_reply ''passthrough'' None))]
         \<and> fragments_of pre = five_chunks
         \<and> check_positions 0 pre = [2, 4]"
proof -
  let ?r = "\<lparr>action = Passthrough, revised_response = None, other_fields = []\<rparr>"
  let ?msgs = "[BaseMessage ''user'' ''q'']"
  let ?run = "guarded_stream passing_world [] stub_guarded ''q'' None"
  let ?es = "fst (snd ?run)"
  have run: "?run = (fst ?run, ?es, snd (snd ?run))"
    by simp
  have x: "extractMessages passing_world ''q'' = Inr ?msgs"
    by (simp add: passing_world_def stub_extract)
  have p: "read_reply (fetch passing_world [] (prompt_request passing_world stub_guarded ?msgs))
             = Inr ?r"
    by (simp add: passing_world_def stub_fetch read_stub_reply)
  have a: "action ?r = Passthrough"
    by simp
  have m: "model_stream passing_world
            ([] @ [Fetch (prompt_request passing_world stub_guarded ?msgs)
                    (fetch passing_world [] (prompt_request passing_world stub_guarded ?msgs))])
            (target stub_guarded) ''q'' None = Inr (five_chunks, None)"
    by (simp add: passing_world_def stub_stream)
  have c: "\<forall>pre req a post.
             ?es = pre @ Fetch req a # post \<and> validation_target (body req) = Response
             \<and> Next None \<notin> set pre
             \<longrightarrow> (\<exists>r'. read_reply a = Inr r' \<and> action r' = Passthrough)"
  proof (intro allI impI)
    fix pre req a post
    assume "?es = pre @ Fetch req a # post \<and> validation_target (body req) = Response
             \<and> Next None \<notin> set pre"
    then have "Fetch req a \<in> set ?es"
      by simp
    then have "a = Inr (stub_reply ''passthrough'' None)"
      by (auto simp: passing_run)
    then show "\<exists>r'. read_reply a = Inr r' \<and> action r' = Passthrough"
      by (simp add: read_stub_reply)
  qed
  have prem: "extractMessages passing_world ''q'' = Inr ?msgs
      \<and> read_reply (fetch passing_world [] (prompt_request passing_world stub_guarded ?msgs))
          = Inr ?r
      \<and> action ?r = Passthrough
      \<and> model_stream passing_world
            ([] @ [Fetch (prompt_request passing_world stub_guarded ?msgs)
                    (fetch passing_world [] (prompt_request passing_world stub_guarded ?msgs))])
            (target stub_guarded) ''q'' None = Inr (five_chunks, None)
      \<and> (\<forall>pre req a post.
             ?es = pre @ Fetch req a # post \<and> validation_target (body req) = Response
             \<and> Next None \<notin> set pre
             \<longrightarrow> (\<exists>r'. read_reply a = Inr r' \<and> action r' = Passthrough))"
    using x p a m c by (intro conjI)
  from checks_cover_whole_text [OF run, THEN conjunct2, THEN conjunct2, rule_format,
      where msgs = ?msgs and r = ?r and cs = five_chunks, OF prem]
  obtain pre post where
    es: "?es = pre @ Next None # post"
    and fr: "fragments_of pre = five_chunks"
    and pos: "check_positions 0 pre
                = filter (\<lambda>n. js_rem (int n) (bound_chunkBatchSize stub_guarded) = Some 0)
                    [1..<Suc (length five_chunks)]"
    and post: "post
                = (if five_chunks \<noteq> []
                      \<and> \<not> bound_chunkBatchSize stub_guarded dvd int (length five_chunks)
                   then [Fetch (response_request passing_world stub_guarded ?msgs
                                  (text_of five_chunks))
                           (fetch passing_world ([] @ pre @ [Next None])
                              (response_request passing_world stub_guarded ?msgs
                                 (text_of five_chunks)))]
                   else [])"
    by blast
  have len: "length five_chunks = 5"
    by (simp add: five_chunks_def)
  from pos have pos': "check_positions 0 pre = [2, 4]"
    by (simp only: len stub_guarded_fields even_positions)
  from post have post': "post = [Fetch (probe Response ''abcde'')
                                   (Inr (stub_reply ''passthrough'' None))]"
    by (simp add: stub_guarded_fields passing_world_def stub_response_request
        stub_fetch probe_def five_chunks_def AIMessageChunk_def)
  from es fr pos' post' show ?thesis
    by simp
qed

lemma empty_revision_run:
  "guarded_stream empty_revision_world [] stub_guarded ''q'' None
     = ([AIMessageChunk ''a'', AIMessageChunk ''[Response intercepted: custom override]''],
        [Fetch (probe Prompt '''') (Inr (stub_reply ''passthrough'' None)),
         CallStream 0 ''q'' None,
         Next (Some (AIMessageChunk ''a'')),
         Next (Some (AIMessageChunk ''b'')),
         Fetch (probe Response ''ab'') (Inr (stub_reply ''rephrase'' (Some ''''))),
         Return],
        None)"
  by (simp add: guarded_stream_def stream_body_def empty_revision_world_def on_response_def
      stub_extract prompt_condition_eq stub_fetch read_stub_reply stub_stream
      stub_guarded_fields stream_loop_Cons tail_check_eq stub_prompt_request
      stub_response_request js_rem_def AIMessageChunk_def probe_def substitute_def
      RESPONSE_OVERRIDE_def
      del: stream_loop.simps(2))

theorem empty_revision_gives_default_witness:
  "fst (guarded_invoke
          (stub_world (\<lambda>p. stub_reply ''block'' (Some '''')) (Inr (AIMessage ''hi'')) [])
          [] stub_guarded ''q'' None)
     = Inr (AIMessage ''[Prompt intercepted: custom response]'')
   \<and> fst (guarded_invoke empty_revision_world [] stub_guarded ''q'' None)
     = Inr (AIMessage ''[Response intercepted: custom override]'')
   \<and> last (fst (guarded_stream empty_revision_world [] stub_guarded ''q'' None))
     = AIMessageChunk ''[Response intercepted: custom override]''"
proof -
  let ?w1 = "stub_world (\<lambda>p. stub_reply ''block'' (Some '''')) (Inr (AIMessage ''hi'')) []"
  let ?w2 = "empty_revision_world"
  let ?b = "\<lparr>action = Block, revised_response = Some '''', other_fields = []\<rparr>"
  let ?rr = "\<lparr>action = Rephrase, revised_response = Some '''', other_fields = []\<rparr>"
  let ?p = "\<lparr>action = Passthrough, revised_response = None, other_fields = []\<rparr>"
  let ?msgs = "[BaseMessage ''user'' ''q'']"
  have ab: "action ?b = Block \<or> action ?b = Modify \<or> action ?b = Rephrase"
    and arr: "action ?rr = Block \<or> action ?rr = Modify \<or> action ?rr = Rephrase"
    by simp_all
  have x2: "extractMessages ?w2 ''q'' = Inr ?msgs"
    by (simp add: empty_revision_world_def stub_extract)
  have rd: "read_reply (Inr (stub_reply ''rephrase'' (Some ''''))) = Inr ?rr"
    by (simp add: read_stub_reply)
  note site1 = empty_revision_gives_default [where w = ?w1 and h = "[]"
      and g = stub_guarded and options = None, OF ab stub_extract,
      THEN conjunct2, THEN conjunct2, THEN conjunct1, rule_format]
  note sites = empty_revision_gives_default [where h = "[]"
      and g = stub_guarded and options = None, OF arr x2,
      THEN conjunct2, THEN conjunct2, THEN conjunct2]
  have 1: "fst (guarded_invoke ?w1 [] stub_guarded ''q'' None)
             = Inr (AIMessage (substitute ?b PROMPT_OVERRIDE))"
    using site1 by (simp add: stub_fetch read_stub_reply)
  have 2: "fst (guarded_invoke ?w2 [] stub_guarded ''q'' None)
             = Inr (AIMessage (substitute ?rr RESPONSE_OVERRIDE))"
    using sites [THEN conjunct1, rule_format, where p = ?p and x = "AIMessage ''hi''"]
    by (simp add: empty_revision_world_def stub_fetch read_stub_reply on_response_def
        stub_prompt_request stub_response_request stub_world_def rd)
  have 3: "last (fst (guarded_stream ?w2 [] stub_guarded ''q'' None))
             = AIMessageChunk (substitute ?rr RESPONSE_OVERRIDE)"
    using sites [THEN conjunct2, rule_format,
        where pre = "[Fetch (probe Prompt '''') (Inr (stub_reply ''passthrough'' None)),
                      CallStream 0 ''q'' None,
                      Next (Some (AIMessageChunk ''a'')),
                      Next (Some (AIMessageChunk ''b''))]"
          and req = "probe Response ''ab''"
          and a = "Inr (stub_reply ''rephrase'' (Some ''''))"
          and post = "[Return]"
          and ys = "fst (guarded_stream ?w2 [] stub_guarded ''q'' None)"
          and es = "fst (snd (guarded_stream ?w2 [] stub_guarded ''q'' None))"
          and err = "snd (snd (guarded_stream ?w2 [] stub_guarded ''q'' None))"]
    by (simp add: empty_revision_run rd probe_def)
  from 1 2 3 show ?thesis
    by (simp add: substitute_def PROMPT_OVERRIDE_def RESPONSE_OVERRIDE_def)
qed

end
